theory Spec2Isabelle
  imports Main "HOL-Library.AList" "HOL-Library.Sublist"
begin

section \<open>Strings\<close>

text \<open>
  A JavaScript string is a sequence of UTF-16 code units; the model writes it as a HOL
  \<open>string\<close>, one \<open>char\<close> per code unit, so that \<open>length\<close> is \<open>.length\<close> and
  \<open>take n\<close> is \<open>.substring(0, n)\<close>.
\<close>

definition slash :: char where
  "slash = CHR ''/''"

definition newline :: char where
  "newline = CHR 0x0A"

text \<open>\<open>s.includes(sep)\<close> for a one-character separator.\<close>

definition js_includes :: "string \<Rightarrow> char \<Rightarrow> bool" where
  "js_includes s sep = (sep \<in> set s)"

text \<open>
  \<open>s.split(sep)\<close> for a one-character separator: the pieces between the separators, an
  empty piece included, so \<open>"".split("/")\<close> is \<open>[""]\<close> and \<open>"/".split("/")\<close> is
  \<open>["", ""]\<close>.
\<close>

fun js_split :: "char \<Rightarrow> string \<Rightarrow> string list" where
  "js_split sep [] = [[]]"
| "js_split sep (c # cs) =
     (if c = sep then [] # js_split sep cs
      else (case js_split sep cs of
              [] \<Rightarrow> [[c]]
            | w # ws \<Rightarrow> (c # w) # ws))"

section \<open>GitHubService.validateRepoFormat\<close>

definition validateRepoFormat :: "string \<Rightarrow> bool" where
  "validateRepoFormat repo =
     (js_includes repo slash \<and> length (js_split slash repo) = 2)"

text \<open>
  The shape the specification asks for, \<open><owner>/<name>\<close>: one separating slash and two
  non-empty segments without a slash.
\<close>

definition owner_name_shape :: "string \<Rightarrow> bool" where
  "owner_name_shape s =
     (\<exists>owner name. s = owner @ [slash] @ name \<and> owner \<noteq> [] \<and> name \<noteq> []
        \<and> slash \<notin> set owner \<and> slash \<notin> set name)"

lemma js_split_nonempty: "js_split sep s \<noteq> []"
  by (induction s) (auto split: list.splits)

lemma length_js_split: "length (js_split sep s) = Suc (count_list s sep)"
proof (induction s)
  case Nil
  show ?case by simp
next
  case (Cons c cs)
  then show ?case
    using js_split_nonempty [of sep cs] by (auto split: list.splits)
qed

lemma count_list_one_decomp:
  "count_list s x = 1 \<longleftrightarrow> (\<exists>a b. s = a @ [x] @ b \<and> x \<notin> set a \<and> x \<notin> set b)"
proof
  assume "count_list s x = 1"
  then show "\<exists>a b. s = a @ [x] @ b \<and> x \<notin> set a \<and> x \<notin> set b"
  proof (induction s)
    case Nil
    then show ?case by simp
  next
    case (Cons c cs)
    show ?case
    proof (cases "c = x")
      case True
      with Cons.prems have "count_list cs x = 0" by simp
      then have "x \<notin> set cs" by (simp add: count_list_0_iff)
      with True have "c # cs = [] @ [x] @ cs \<and> x \<notin> set [] \<and> x \<notin> set cs" by simp
      then show ?thesis by blast
    next
      case False
      with Cons.prems have "count_list cs x = 1" by simp
      with Cons.IH obtain a b where ab: "cs = a @ [x] @ b" "x \<notin> set a" "x \<notin> set b"
        by blast
      with False have "c # cs = (c # a) @ [x] @ b \<and> x \<notin> set (c # a) \<and> x \<notin> set b"
        by simp
      then show ?thesis by blast
    qed
  qed
next
  assume "\<exists>a b. s = a @ [x] @ b \<and> x \<notin> set a \<and> x \<notin> set b"
  then obtain a b where "s = a @ [x] @ b" "x \<notin> set a" "x \<notin> set b" by blast
  then show "count_list s x = 1"
    by (simp add: count_list_0_iff)
qed

lemma validateRepoFormat_iff_one_slash:
  "validateRepoFormat repo \<longleftrightarrow> count_list repo slash = 1"
proof -
  have "count_list repo slash = 1 \<Longrightarrow> slash \<in> set repo"
    using count_list_0_iff [of repo slash] by auto
  then show ?thesis
    by (auto simp: validateRepoFormat_def js_includes_def length_js_split)
qed

lemma validateRepoFormat_has_slash: "validateRepoFormat repo \<Longrightarrow> slash \<in> set repo"
  by (simp add: validateRepoFormat_def js_includes_def)

text \<open>
  Claim C1. The specification says that the validator accepts exactly the strings
  \<open><owner>/<name>\<close> with two non-empty segments and rejects \<open>"/b"\<close> and \<open>"a/"\<close>. The code
  counts the slashes only: it rejects \<open>""\<close>, \<open>"abc"\<close> and \<open>"a/b/c"\<close>, and it accepts
  \<open>"/b"\<close>, \<open>"a/"\<close> and \<open>"/"\<close>, none of which has the shape.
\<close>

theorem validateRepoFormat_accepts_empty_segment:
  "validateRepoFormat ''/b'' \<and> \<not> owner_name_shape ''/b''
   \<and> validateRepoFormat ''a/'' \<and> \<not> owner_name_shape ''a/''
   \<and> validateRepoFormat ''/'' \<and> \<not> owner_name_shape ''/''
   \<and> validateRepoFormat ''a/b'' \<and> owner_name_shape ''a/b''
   \<and> \<not> validateRepoFormat '''' \<and> \<not> validateRepoFormat ''abc''
   \<and> \<not> validateRepoFormat ''a/b/c''"
proof -
  have shape_b: "\<not> owner_name_shape ''/b''"
    by (auto simp: owner_name_shape_def slash_def append_eq_Cons_conv Cons_eq_append_conv)
  have shape_a: "\<not> owner_name_shape ''a/''"
    by (auto simp: owner_name_shape_def slash_def append_eq_Cons_conv Cons_eq_append_conv)
  have shape_s: "\<not> owner_name_shape ''/''"
    by (auto simp: owner_name_shape_def slash_def append_eq_Cons_conv Cons_eq_append_conv)
  have "''a/b'' = ''a'' @ [slash] @ ''b''" by (simp add: slash_def)
  then have shape_ab: "owner_name_shape ''a/b''"
    unfolding owner_name_shape_def by (intro exI [of _ "''a''"] exI [of _ "''b''"]) (simp add: slash_def)
  show ?thesis
    using shape_b shape_a shape_s shape_ab
    by (simp add: validateRepoFormat_def js_includes_def slash_def)
qed

section \<open>Data model (types.ts)\<close>

text \<open>
  \<open>GitHubIssue\<close>, \<open>CachedRepo\<close> and \<open>Cache\<close>. The \<open>id\<close> field is written \<open>issue_id\<close>.
  A \<open>Cache\<close> is a JavaScript object used as a dictionary: its own properties in
  insertion order, as an association list.
\<close>

record GitHubIssue =
  issue_id :: int
  title :: string
  body :: "string option"
  html_url :: string
  created_at :: string

record CachedRepo =
  issues :: "GitHubIssue list"
  last_updated :: string

type_synonym Cache = "(string \<times> CachedRepo) list"

text \<open>A thrown \<open>Error\<close> with its message.\<close>

datatype error = Error string

fun message :: "error \<Rightarrow> string" where
  "message (Error m) = m"

subsection \<open>Objects as dictionaries\<close>

text \<open>
  The cache object is created by \<open>{}\<close> or by \<open>JSON.parse\<close>, so it inherits the properties
  of \<open>Object.prototype\<close>. \<open>k in obj\<close> and \<open>obj[k]\<close> see the inherited properties too, and
  the assignment \<open>obj["__proto__"] = v\<close> calls the inherited setter (it replaces the
  prototype and adds no own property) unless the object has an own property of that name.
\<close>

definition object_prototype_keys :: "string list" where
  "object_prototype_keys =
     [''constructor'', ''__defineGetter__'', ''__defineSetter__'', ''hasOwnProperty'',
      ''__lookupGetter__'', ''__lookupSetter__'', ''isPrototypeOf'',
      ''propertyIsEnumerable'', ''toString'', ''valueOf'', ''__proto__'',
      ''toLocaleString'']"

text \<open>\<open>k in obj\<close>.\<close>

definition js_in :: "string \<Rightarrow> Cache \<Rightarrow> bool" where
  "js_in k obj = (k \<in> fst ` set obj \<or> k \<in> set object_prototype_keys)"

text \<open>
  What \<open>obj[k] || null\<close> evaluates to: an own entry (an object, so truthy), a built-in
  inherited from \<open>Object.prototype\<close> (a function or an object, truthy as well), or
  \<open>null\<close>.
\<close>

datatype lookup = Null | Repo CachedRepo | Builtin

definition js_get_or_null :: "Cache \<Rightarrow> string \<Rightarrow> lookup" where
  "js_get_or_null obj k =
     (case map_of obj k of
        Some v \<Rightarrow> Repo v
      | None \<Rightarrow> if k \<in> set object_prototype_keys then Builtin else Null)"

text \<open>\<open>obj[k] = v\<close> for an object \<open>v\<close>.\<close>

definition js_set :: "string \<Rightarrow> CachedRepo \<Rightarrow> Cache \<Rightarrow> Cache" where
  "js_set k v obj =
     (if k = ''__proto__'' \<and> map_of obj k = None then obj else AList.update k v obj)"

section \<open>CacheService (cache.ts)\<close>

text \<open>
  The file \<open>issues_cache.json\<close>: its text when it exists, and whether \<open>readFileSync\<close>
  and \<open>writeFileSync\<close> throw (with which message).
\<close>

record fs =
  file_data :: "string option"
  read_error :: "string option"
  write_error :: "string option"

text \<open>
  \<open>JSON.stringify(cache, null, 2)\<close> and \<open>JSON.parse\<close> belong to the runtime and are
  parameters of the model; \<open>JSON_parse\<close> is \<open>None\<close> where \<open>JSON.parse\<close> throws a
  \<open>SyntaxError\<close>. The runtime's own functions are modelled further down, as \<open>js_json\<close>.
\<close>

record json =
  JSON_stringify :: "Cache \<Rightarrow> string"
  JSON_parse :: "string \<Rightarrow> Cache option"

text \<open>The body of the \<open>try\<close> block of \<open>loadCache\<close>.\<close>

definition loadCache_try :: "json \<Rightarrow> fs \<Rightarrow> error + Cache" where
  "loadCache_try J f =
     (case file_data f of
        Some data \<Rightarrow>
          (case read_error f of
             Some m \<Rightarrow> Inl (Error m)
           | None \<Rightarrow>
               (case JSON_parse J data of
                  None \<Rightarrow> Inl (Error ''SyntaxError'')
                | Some cache \<Rightarrow> Inr cache))
      | None \<Rightarrow> Inr [])"

definition loadCache :: "json \<Rightarrow> fs \<Rightarrow> error + Cache" where
  "loadCache J f =
     (case loadCache_try J f of
        Inl e \<Rightarrow> Inr []
      | Inr cache \<Rightarrow> Inr cache)"

text \<open>\<open>saveCache\<close> returns the file system after the write.\<close>

definition saveCache :: "json \<Rightarrow> fs \<Rightarrow> Cache \<Rightarrow> error + fs" where
  "saveCache J f cache =
     (case write_error f of
        Some m \<Rightarrow> Inl (Error ''Failed to save cache to file'')
      | None \<Rightarrow> Inr (f\<lparr>file_data := Some (JSON_stringify J cache)\<rparr>))"

text \<open>\<open>now\<close> is the value of \<open>new Date().toISOString()\<close> at the call.\<close>

definition storeIssues :: "json \<Rightarrow> string \<Rightarrow> fs \<Rightarrow> string \<Rightarrow> GitHubIssue list \<Rightarrow> error + fs" where
  "storeIssues J now f repo found =
     (case loadCache J f of
        Inl e \<Rightarrow> Inl e
      | Inr cache \<Rightarrow>
          saveCache J f (js_set repo \<lparr>issues = found, last_updated = now\<rparr> cache))"

definition getIssues :: "json \<Rightarrow> fs \<Rightarrow> string \<Rightarrow> error + lookup" where
  "getIssues J f repo =
     (case loadCache J f of
        Inl e \<Rightarrow> Inl e
      | Inr cache \<Rightarrow> Inr (js_get_or_null cache repo))"

definition hasRepo :: "json \<Rightarrow> fs \<Rightarrow> string \<Rightarrow> error + bool" where
  "hasRepo J f repo =
     (case loadCache J f of
        Inl e \<Rightarrow> Inl e
      | Inr cache \<Rightarrow> Inr (js_in repo cache))"

section \<open>Rendering numbers\<close>

text \<open>
  \<open>`${n}`\<close> for an integer \<open>n\<close>: its decimal digits (JavaScript switches to the exponent
  notation only from \<open>1e21\<close> on, far above any identifier or status).
\<close>

fun nat_toString :: "nat \<Rightarrow> string" where
  "nat_toString n =
     (if n < 10 then [''0123456789'' ! n]
      else nat_toString (n div 10) @ [''0123456789'' ! (n mod 10)])"

declare nat_toString.simps [simp del]

definition int_toString :: "int \<Rightarrow> string" where
  "int_toString i = (if i < 0 then ''-'' @ nat_toString (nat (- i)) else nat_toString (nat i))"

section \<open>GitHubService.fetchAllIssues (github.ts)\<close>

text \<open>
  An element of \<open>response.data\<close>. \<open>pull_request\<close> is \<open>Some\<close> when the object has the key
  \<open>"pull_request"\<close>; \<open>item_body\<close> is \<open>None\<close> when the body is \<open>null\<close> or missing.
\<close>

record item =
  item_id :: int
  item_title :: string
  item_body :: "string option"
  item_html_url :: string
  item_created_at :: string
  pull_request :: "string option"

text \<open>The request \<open>axios.get(url, {params: {state, page, per_page}})\<close>.\<close>

record get_request =
  url :: string
  state :: string
  page :: nat
  per_page :: nat

text \<open>
  What \<open>axios.get\<close> throws: an axios error, with \<open>error.response?.status\<close>,
  \<open>error.response?.data?.message\<close> and \<open>error.message\<close>, or anything else.
\<close>

datatype failure = AxiosError "nat option" "string option" string | Thrown error

type_synonym axios = "get_request \<Rightarrow> failure + item list"

definition GITHUB_API_BASE :: string where
  "GITHUB_API_BASE = ''https://api.github.com''"

definition perPage :: nat where
  "perPage = 100"

definition issues_request :: "string \<Rightarrow> nat \<Rightarrow> get_request" where
  "issues_request repo pg =
     \<lparr>url = GITHUB_API_BASE @ ''/repos/'' @ repo @ ''/issues'',
      state = ''open'', page = pg, per_page = perPage\<rparr>"

text \<open>The object pushed for an item; \<open>item.body || ""\<close>.\<close>

definition to_issue :: "item \<Rightarrow> GitHubIssue" where
  "to_issue it =
     \<lparr>issue_id = item_id it,
      title = item_title it,
      body = Some (case item_body it of None \<Rightarrow> [] | Some b \<Rightarrow> b),
      html_url = item_html_url it,
      created_at = item_created_at it\<rparr>"

text \<open>The \<open>for\<close> loop over one page, with its \<open>continue\<close>.\<close>

fun push_items :: "item list \<Rightarrow> GitHubIssue list \<Rightarrow> GitHubIssue list" where
  "push_items [] acc = acc"
| "push_items (it # rest) acc =
     (if pull_request it \<noteq> None then push_items rest acc
      else push_items rest (acc @ [to_issue it]))"

text \<open>
  The \<open>while (true)\<close> loop. It has no bound on the number of pages: where it does not
  return, the value is \<open>None\<close>.
\<close>

partial_function (option) fetch_pages ::
  "axios \<Rightarrow> string \<Rightarrow> nat \<Rightarrow> GitHubIssue list \<Rightarrow> (failure + GitHubIssue list) option" where
  "fetch_pages get repo pg acc =
     (case get (issues_request repo pg) of
        Inl e \<Rightarrow> Some (Inl e)
      | Inr data \<Rightarrow>
          if length data = 0 then Some (Inr acc)
          else fetch_pages get repo (pg + 1) (push_items data acc))"

text \<open>The \<open>catch\<close> block: \<open>`GitHub API error: ${status} - ${message}`\<close>.\<close>

definition github_error :: "failure \<Rightarrow> error" where
  "github_error e =
     (case e of
        AxiosError status data_message error_message \<Rightarrow>
          Error (''GitHub API error: ''
                 @ (case status of None \<Rightarrow> ''undefined'' | Some n \<Rightarrow> nat_toString n)
                 @ '' - ''
                 @ (case data_message of
                      None \<Rightarrow> error_message
                    | Some m \<Rightarrow> if m = [] then error_message else m))
      | Thrown err \<Rightarrow> err)"

definition fetchAllIssues :: "axios \<Rightarrow> string \<Rightarrow> (error + GitHubIssue list) option" where
  "fetchAllIssues get repo =
     (case fetch_pages get repo 1 [] of
        None \<Rightarrow> None
      | Some (Inl e) \<Rightarrow> Some (Inl (github_error e))
      | Some (Inr found) \<Rightarrow> Some (Inr found))"

section \<open>The HTTP handlers (index.ts)\<close>

text \<open>The parsed request body, \<open>Partial<ScanRequest>\<close> or \<open>Partial<AnalyzeRequest>\<close>.\<close>

record body_fields =
  body_repo :: "string option"
  body_prompt :: "string option"

datatype payload =
    ScanResponse string nat bool
  | AnalyzeResponse string
  | ErrorResponse string "bool option"

text \<open>\<open>res.status(n).json(payload)\<close>; \<open>res.json(payload)\<close> has status 200.\<close>

datatype response = Response nat payload

text \<open>\<open>!s\<close> for an optional string: \<open>null\<close>, missing or empty.\<close>

definition falsy :: "string option \<Rightarrow> bool" where
  "falsy s = (case s of None \<Rightarrow> True | Some v \<Rightarrow> v = [])"

definition apostrophe :: string where
  "apostrophe = [CHR 0x27]"

text \<open>
  \<open>POST /scan\<close>. The result is the response and the file system after the request; a write
  that fails is taken to leave the file as it was. \<open>None\<close>: the fetch does not return.
\<close>

definition scan :: "json \<Rightarrow> axios \<Rightarrow> string \<Rightarrow> fs \<Rightarrow> body_fields \<Rightarrow> (response \<times> fs) option" where
  "scan J get now f b =
     (let missing =
            Some (Response 400 (ErrorResponse ''Missing 'repo' field in request body'' None), f)
      in case body_repo b of
           None \<Rightarrow> missing
         | Some repo \<Rightarrow>
             if repo = [] then missing
             else if \<not> validateRepoFormat repo then
               Some (Response 400
                       (ErrorResponse
                          (''Invalid repo format. Expected 'owner/repository-name'' @ apostrophe)
                          None), f)
             else
               (case fetchAllIssues get repo of
                  None \<Rightarrow> None
                | Some (Inl e) \<Rightarrow>
                    Some (Response 500 (ErrorResponse (message e) (Some False)), f)
                | Some (Inr found) \<Rightarrow>
                    (case storeIssues J now f repo found of
                       Inl e \<Rightarrow> Some (Response 500 (ErrorResponse (message e) (Some False)), f)
                     | Inr f' \<Rightarrow>
                         Some (Response 200 (ScanResponse repo (length found) True), f'))))"

section \<open>LLMService (llm.ts)\<close>

datatype LLMProvider = anthropic | openai

text \<open>
  What is sent to a provider: the model, \<open>max_tokens\<close>, the system text and the content of
  the one user message.
\<close>

record completion_request =
  model :: string
  max_tokens :: nat
  system_text :: string
  user_text :: string

text \<open>
  The two SDK clients are parameters. The Anthropic client answers with the content blocks
  of the message, the OpenAI client with \<open>message.content\<close> of each choice; either may
  throw.
\<close>

datatype content_block = TextBlock string | OtherBlock

type_synonym anthropic_client = "completion_request \<Rightarrow> error + content_block list"

type_synonym openai_client = "completion_request \<Rightarrow> error + string option list"

record LLMService =
  provider :: LLMProvider
  anthropicClient :: "anthropic_client option"
  openaiClient :: "openai_client option"

text \<open>\<open>parts.join(sep)\<close>.\<close>

fun js_join :: "string \<Rightarrow> string list \<Rightarrow> string" where
  "js_join sep [] = []"
| "js_join sep [x] = x"
| "js_join sep (x # y # rest) = x @ sep @ js_join sep (y # rest)"

text \<open>
  The body shown for an issue: \<open>issue.body ? issue.body.substring(0, 500) : "No
  description"\<close>.
\<close>

definition shown_body :: "GitHubIssue \<Rightarrow> string" where
  "shown_body issue =
     (if falsy (body issue) then ''No description''
      else take 500 (case body issue of None \<Rightarrow> [] | Some b \<Rightarrow> b))"

text \<open>The template of one issue, the callback of \<open>issues.map\<close>.\<close>

definition issue_block :: "GitHubIssue \<Rightarrow> string" where
  "issue_block issue =
     [newline] @ ''Issue ID: '' @ int_toString (issue_id issue)
     @ [newline] @ ''Title: '' @ title issue
     @ [newline] @ ''Body: '' @ shown_body issue
     @ [newline] @ ''URL: '' @ html_url issue
     @ [newline] @ ''Created: '' @ created_at issue
     @ [newline] @ ''---''"

definition issuesText :: "GitHubIssue list \<Rightarrow> string" where
  "issuesText found = js_join [newline] (map issue_block found)"

definition systemPrompt :: string where
  "systemPrompt =
     ''You are an expert software project analyst. You analyze GitHub issues to identify ''
     @ ''patterns, themes, and priorities. Provide clear, actionable insights based on the issues provided.''"

definition fullPrompt :: "string \<Rightarrow> GitHubIssue list \<Rightarrow> string \<Rightarrow> string" where
  "fullPrompt repo found userPrompt =
     ''Analyze the following GitHub issues from the repository '' @ apostrophe @ repo
     @ apostrophe @ ''.'' @ [newline, newline]
     @ userPrompt @ [newline, newline]
     @ ''Here are the issues:'' @ [newline, newline]
     @ issuesText found @ [newline, newline]
     @ ''Please provide a comprehensive analysis based on the request above.''"

text \<open>
  The provider calls return their result together with the requests that were sent, in
  order.
\<close>

fun is_text :: "content_block \<Rightarrow> bool" where
  "is_text (TextBlock t) = True"
| "is_text OtherBlock = False"

definition analyzeWithAnthropic ::
  "LLMService \<Rightarrow> string \<Rightarrow> string \<Rightarrow> (error + string) \<times> completion_request list" where
  "analyzeWithAnthropic svc sys usr =
     (case anthropicClient svc of
        None \<Rightarrow> (Inl (Error ''Anthropic client not initialized''), [])
      | Some client \<Rightarrow>
          let req = \<lparr>model = ''claude-sonnet-4-20250514'', max_tokens = 4000,
                     system_text = sys, user_text = usr\<rparr>
          in (case client req of
                Inl e \<Rightarrow> Inl e
              | Inr content \<Rightarrow>
                  (case find is_text content of
                     Some (TextBlock t) \<Rightarrow> Inr t
                   | _ \<Rightarrow> Inl (Error ''No text content in LLM response'')),
              [req]))"

definition analyzeWithOpenAI ::
  "LLMService \<Rightarrow> string \<Rightarrow> string \<Rightarrow> (error + string) \<times> completion_request list" where
  "analyzeWithOpenAI svc sys usr =
     (case openaiClient svc of
        None \<Rightarrow> (Inl (Error ''OpenAI client not initialized''), [])
      | Some client \<Rightarrow>
          let req = \<lparr>model = ''gpt-4o'', max_tokens = 4000,
                     system_text = sys, user_text = usr\<rparr>
          in (case client req of
                Inl e \<Rightarrow> Inl e
              | Inr choices \<Rightarrow>
                  (case choices of
                     Some text # others \<Rightarrow>
                       if text = [] then Inl (Error ''No content in OpenAI response'')
                       else Inr text
                   | _ \<Rightarrow> Inl (Error ''No content in OpenAI response'')),
              [req]))"

definition analyzeIssues ::
  "LLMService \<Rightarrow> string \<Rightarrow> GitHubIssue list \<Rightarrow> string
     \<Rightarrow> (error + string) \<times> completion_request list" where
  "analyzeIssues svc repo found userPrompt =
     (let (result, sent) =
            (if provider svc = anthropic
             then analyzeWithAnthropic svc systemPrompt (fullPrompt repo found userPrompt)
             else analyzeWithOpenAI svc systemPrompt (fullPrompt repo found userPrompt))
      in (case result of
            Inl e \<Rightarrow> Inl (Error (''LLM API error: '' @ message e))
          | Inr text \<Rightarrow> Inr text,
          sent))"

section \<open>POST /analyze (index.ts)\<close>

definition no_issues_sentence :: string where
  "no_issues_sentence =
     ''No issues found in the cache for this repository. The repository may not have any open issues.''"

text \<open>
  The result is the response and the requests sent to the provider while the request was
  served. \<open>cachedData.issues\<close> of a built-in inherited from \<open>Object.prototype\<close> is
  \<open>undefined\<close>, so \<open>!issues\<close> holds for it.
\<close>

definition analyze ::
  "LLMService \<Rightarrow> json \<Rightarrow> fs \<Rightarrow> body_fields \<Rightarrow> response \<times> completion_request list" where
  "analyze svc J f b =
     (case (body_repo b, body_prompt b) of
        (Some repo, Some prompt) \<Rightarrow>
          if repo = [] \<or> prompt = [] then
            (Response 400
               (ErrorResponse ''Missing 'repo' or 'prompt' field in request body'' None), [])
          else
            (case hasRepo J f repo of
               Inl e \<Rightarrow> (Response 500 (ErrorResponse (message e) None), [])
             | Inr False \<Rightarrow>
                 (Response 404
                    (ErrorResponse
                       (''Repository '' @ apostrophe @ repo @ apostrophe
                        @ '' not yet scanned. Please call /scan first.'') None), [])
             | Inr True \<Rightarrow>
                 (case getIssues J f repo of
                    Inl e \<Rightarrow> (Response 500 (ErrorResponse (message e) None), [])
                  | Inr Null \<Rightarrow>
                      (Response 500
                         (ErrorResponse
                            (''Failed to retrieve cached data for repository '' @ apostrophe
                             @ repo @ apostrophe) None), [])
                  | Inr Builtin \<Rightarrow> (Response 200 (AnalyzeResponse no_issues_sentence), [])
                  | Inr (Repo cachedData) \<Rightarrow>
                      if length (issues cachedData) = 0 then
                        (Response 200 (AnalyzeResponse no_issues_sentence), [])
                      else
                        (case analyzeIssues svc repo (issues cachedData) prompt of
                           (Inl e, sent) \<Rightarrow>
                             (Response 500 (ErrorResponse (message e) None), sent)
                         | (Inr analysis, sent) \<Rightarrow>
                             (Response 200 (AnalyzeResponse analysis), sent))))
      | _ \<Rightarrow>
          (Response 400
             (ErrorResponse ''Missing 'repo' or 'prompt' field in request body'' None), []))"

section \<open>Properties of CacheService\<close>

text \<open>
  The one property of the runtime's JSON functions that the cache relies on: parsing the
  text written for a cache gives the cache back.
\<close>

definition round_trips :: "json \<Rightarrow> Cache \<Rightarrow> bool" where
  "round_trips J cache = (JSON_parse J (JSON_stringify J cache) = Some cache)"

lemma loadCache_returns: "\<exists>cache. loadCache J f = Inr cache"
  by (simp add: loadCache_def split: sum.splits)

lemma loadCache_no_file: "file_data f = None \<Longrightarrow> loadCache J f = Inr []"
  by (simp add: loadCache_def loadCache_try_def)

lemma loadCache_read_failure:
  "file_data f = Some data \<Longrightarrow> read_error f = Some m \<Longrightarrow> loadCache J f = Inr []"
  by (simp add: loadCache_def loadCache_try_def)

lemma loadCache_parse_failure:
  "file_data f = Some data \<Longrightarrow> JSON_parse J data = None \<Longrightarrow> loadCache J f = Inr []"
  by (simp add: loadCache_def loadCache_try_def split: option.splits)

lemma loadCache_parsed:
  "file_data f = Some data \<Longrightarrow> read_error f = None \<Longrightarrow> JSON_parse J data = Some cache
     \<Longrightarrow> loadCache J f = Inr cache"
  by (simp add: loadCache_def loadCache_try_def)

lemma saveCache_Inr:
  "saveCache J f cache = Inr f' \<Longrightarrow>
     write_error f = None \<and> f' = f\<lparr>file_data := Some (JSON_stringify J cache)\<rparr>"
  by (auto simp: saveCache_def split: option.splits)

lemma load_after_save:
  assumes "saveCache J f cache = Inr f'" and "read_error f = None" and "round_trips J cache"
  shows "loadCache J f' = Inr cache"
proof -
  from assms(1) have f': "f' = f\<lparr>file_data := Some (JSON_stringify J cache)\<rparr>"
    by (simp add: saveCache_Inr)
  show ?thesis
    using assms(2,3)
    by (intro loadCache_parsed [where data = "JSON_stringify J cache"])
       (simp_all add: f' round_trips_def)
qed

lemma object_prototype_keys_no_slash: "slash \<in> set k \<Longrightarrow> k \<notin> set object_prototype_keys"
  by (auto simp: object_prototype_keys_def slash_def)

lemma js_in_iff_get: "js_in k obj \<longleftrightarrow> js_get_or_null obj k \<noteq> Null"
proof (cases "map_of obj k")
  case None
  then have "k \<notin> fst ` set obj" by (simp add: map_of_eq_None_iff)
  with None show ?thesis by (simp add: js_in_def js_get_or_null_def)
next
  case (Some v)
  then have "k \<in> fst ` set obj" by (metis map_of_eq_None_iff option.distinct(1))
  with Some show ?thesis by (simp add: js_in_def js_get_or_null_def)
qed

lemma js_get_after_set:
  assumes "k \<noteq> ''__proto__'' \<or> map_of obj k \<noteq> None"
  shows "js_get_or_null (js_set k v obj) k = Repo v"
  using assms by (auto simp: js_set_def js_get_or_null_def update_conv')

lemma js_get_after_set_other:
  "k' \<noteq> k \<Longrightarrow> js_get_or_null (js_set k v obj) k' = js_get_or_null obj k'"
  by (simp add: js_set_def js_get_or_null_def update_conv')

lemma js_set_present:
  "map_of obj k = Some prior \<Longrightarrow> js_set k v obj = AList.update k v obj"
  by (simp add: js_set_def)

lemma keys_update_present:
  "map_of obj k = Some prior \<Longrightarrow> map fst (AList.update k v obj) = map fst obj"
  by (metis update_keys map_of_eq_None_iff option.distinct(1) set_map)

lemma storeIssues_Inr:
  assumes "storeIssues J now f repo found = Inr f'" and "loadCache J f = Inr old"
  shows "saveCache J f (js_set repo \<lparr>issues = found, last_updated = now\<rparr> old) = Inr f'"
  using assms by (simp add: storeIssues_def)

lemma load_after_store:
  assumes "storeIssues J now f repo found = Inr f'" and "loadCache J f = Inr old"
    and "read_error f = None"
    and "round_trips J (js_set repo \<lparr>issues = found, last_updated = now\<rparr> old)"
  shows "loadCache J f' = Inr (js_set repo \<lparr>issues = found, last_updated = now\<rparr> old)"
  using load_after_save [OF storeIssues_Inr [OF assms(1,2)] assms(3,4)] .

text \<open>
  Claim C9. \<open>loadCache\<close> never fails its caller: it always returns a cache, the empty
  one when the file does not exist, when reading it throws and when its text does not
  parse. \<open>saveCache\<close> throws \<open>Error("Failed to save cache to file")\<close> when the write
  fails, and returns normally otherwise.
\<close>
theorem load_never_fails_save_surfaces:
  "(\<exists>cache. loadCache J f = Inr cache)
   \<and> (file_data f = None \<longrightarrow> loadCache J f = Inr [])
   \<and> (file_data f \<noteq> None \<and> read_error f \<noteq> None \<longrightarrow> loadCache J f = Inr [])
   \<and> (\<forall>data. file_data f = Some data \<and> JSON_parse J data = None \<longrightarrow> loadCache J f = Inr [])
   \<and> (write_error f \<noteq> None \<longrightarrow>
        saveCache J f cache = Inl (Error ''Failed to save cache to file''))
   \<and> (write_error f = None \<longrightarrow> (\<exists>f'. saveCache J f cache = Inr f'))"
proof -
  have "write_error f \<noteq> None \<longrightarrow> saveCache J f cache = Inl (Error ''Failed to save cache to file'')"
    by (auto simp: saveCache_def)
  moreover have "write_error f = None \<longrightarrow> (\<exists>f'. saveCache J f cache = Inr f')"
    by (simp add: saveCache_def)
  moreover have "file_data f \<noteq> None \<and> read_error f \<noteq> None \<longrightarrow> loadCache J f = Inr []"
    using loadCache_read_failure by blast
  ultimately show ?thesis
    using loadCache_returns [of J f] loadCache_no_file [of f J] loadCache_parse_failure [of f _ J]
    by blast
qed

text \<open>
  Claim C4. Storing issues for an identifier that has an entry replaces that entry by
  \<open>{issues, last_updated: now}\<close>: the lookup gives exactly the new issue sequence and the
  time of the write, every other identifier keeps its entry, the identifiers of the cache
  are the same as before (nothing is appended), and a cache with one entry per identifier
  still has exactly one entry for the stored identifier.
\<close>
theorem storeIssues_replaces_entry:
  assumes "loadCache J f = Inr old" and "map_of old repo = Some prior"
    and "storeIssues J now f repo found = Inr f'"
    and "read_error f = None"
    and "round_trips J (js_set repo \<lparr>issues = found, last_updated = now\<rparr> old)"
  shows "getIssues J f' repo = Inr (Repo \<lparr>issues = found, last_updated = now\<rparr>)
    \<and> (\<forall>other. other \<noteq> repo \<longrightarrow> getIssues J f' other = getIssues J f other)
    \<and> (\<exists>new. loadCache J f' = Inr new
          \<and> new = AList.update repo \<lparr>issues = found, last_updated = now\<rparr> old
          \<and> map fst new = map fst old
          \<and> (distinct (map fst old) \<longrightarrow>
               distinct (map fst new)
               \<and> filter (\<lambda>entry. fst entry = repo) new
                   = [(repo, \<lparr>issues = found, last_updated = now\<rparr>)]))"
proof -
  let ?entry = "\<lparr>issues = found, last_updated = now\<rparr>"
  let ?new = "AList.update repo ?entry old"
  have set: "js_set repo ?entry old = ?new" using assms(2) by (rule js_set_present)
  have new: "loadCache J f' = Inr ?new"
    using load_after_store [OF assms(3) assms(1) assms(4) assms(5)] set by simp
  have get: "getIssues J f' repo = Inr (Repo ?entry)"
    using new by (simp add: getIssues_def js_get_or_null_def update_conv')
  have others: "\<forall>other. other \<noteq> repo \<longrightarrow> getIssues J f' other = getIssues J f other"
    using new assms(1) by (simp add: getIssues_def js_get_or_null_def update_conv')
  have keys: "map fst ?new = map fst old" using assms(2) by (rule keys_update_present)
  have one: "distinct (map fst old) \<longrightarrow>
               distinct (map fst ?new) \<and> filter (\<lambda>entry. fst entry = repo) ?new = [(repo, ?entry)]"
  proof
    assume d: "distinct (map fst old)"
    then have "distinct (map fst ?new)" by (rule distinct_update)
    moreover have "filter (\<lambda>entry. fst entry = repo) ?new = [(repo, ?entry)]"
      using d by (induction old) (auto simp: filter_empty_conv rev_image_eqI)
    ultimately show "distinct (map fst ?new) \<and> filter (\<lambda>entry. fst entry = repo) ?new = [(repo, ?entry)]" ..
  qed
  show ?thesis using get others new keys one by blast
qed

section \<open>Properties of fetchAllIssues\<close>

text \<open>
  What one page contributes to the result: its items without the pull requests, each
  projected to an issue, in the order of the page.
\<close>

definition surviving :: "item list \<Rightarrow> GitHubIssue list" where
  "surviving data = map to_issue (filter (\<lambda>it. pull_request it = None) data)"

lemma push_items_eq: "push_items data acc = acc @ surviving data"
  by (induction data arbitrary: acc) (simp_all add: surviving_def)

lemma fetch_pages_error:
  "get (issues_request repo pg) = Inl e \<Longrightarrow> fetch_pages get repo pg acc = Some (Inl e)"
  by (subst fetch_pages.simps) simp

lemma fetch_pages_empty:
  "get (issues_request repo pg) = Inr [] \<Longrightarrow> fetch_pages get repo pg acc = Some (Inr acc)"
  by (subst fetch_pages.simps) simp

lemma fetch_pages_next:
  "get (issues_request repo pg) = Inr data \<Longrightarrow> data \<noteq> [] \<Longrightarrow>
     fetch_pages get repo pg acc = fetch_pages get repo (Suc pg) (acc @ surviving data)"
  by (subst fetch_pages.simps) (simp add: push_items_eq)

text \<open>
  \<open>pages\<close> are the answers to the requests for the pages \<open>pg\<close>, \<open>pg + 1\<close>, ..., each
  with at least one item.
\<close>

definition fetched_through ::
  "axios \<Rightarrow> string \<Rightarrow> nat \<Rightarrow> item list list \<Rightarrow> bool" where
  "fetched_through get repo pg pages =
     (\<forall>k < length pages.
        get (issues_request repo (pg + k)) = Inr (pages ! k) \<and> pages ! k \<noteq> [])"

text \<open>
  What the loop returns when it returns: it has read some non-empty pages, and then either
  an empty page (the result is the accumulator and the surviving items of the pages, in
  page order) or a failure (which is the result).
\<close>

definition loop_outcome ::
  "axios \<Rightarrow> string \<Rightarrow> nat \<Rightarrow> GitHubIssue list \<Rightarrow> failure + GitHubIssue list \<Rightarrow> bool" where
  "loop_outcome get repo pg acc r =
     (\<exists>pages. fetched_through get repo pg pages
        \<and> (case r of
              Inr found \<Rightarrow> get (issues_request repo (pg + length pages)) = Inr []
                           \<and> found = acc @ concat (map surviving pages)
            | Inl e \<Rightarrow> get (issues_request repo (pg + length pages)) = Inl e))"

lemma fetched_through_Nil: "fetched_through get repo pg []"
  by (simp add: fetched_through_def)

lemma fetched_through_Cons:
  "fetched_through get repo pg (d # ds) \<longleftrightarrow>
     get (issues_request repo pg) = Inr d \<and> d \<noteq> [] \<and> fetched_through get repo (Suc pg) ds"
proof
  assume a: "fetched_through get repo pg (d # ds)"
  then have "get (issues_request repo (pg + 0)) = Inr ((d # ds) ! 0) \<and> (d # ds) ! 0 \<noteq> []"
    unfolding fetched_through_def by (metis length_greater_0_conv list.distinct(1))
  moreover have "fetched_through get repo (Suc pg) ds"
    unfolding fetched_through_def
  proof (intro allI impI)
    fix k assume "k < length ds"
    then have "Suc k < length (d # ds)" by simp
    with a have "get (issues_request repo (pg + Suc k)) = Inr ((d # ds) ! Suc k) \<and> (d # ds) ! Suc k \<noteq> []"
      unfolding fetched_through_def by blast
    then show "get (issues_request repo (Suc pg + k)) = Inr (ds ! k) \<and> ds ! k \<noteq> []" by simp
  qed
  ultimately show "get (issues_request repo pg) = Inr d \<and> d \<noteq> [] \<and> fetched_through get repo (Suc pg) ds"
    by simp
next
  assume a: "get (issues_request repo pg) = Inr d \<and> d \<noteq> [] \<and> fetched_through get repo (Suc pg) ds"
  show "fetched_through get repo pg (d # ds)"
    unfolding fetched_through_def
  proof (intro allI impI)
    fix k assume k: "k < length (d # ds)"
    show "get (issues_request repo (pg + k)) = Inr ((d # ds) ! k) \<and> (d # ds) ! k \<noteq> []"
    proof (cases k)
      case 0
      with a show ?thesis by simp
    next
      case (Suc j)
      with k have "j < length ds" by simp
      with a have "get (issues_request repo (Suc pg + j)) = Inr (ds ! j) \<and> ds ! j \<noteq> []"
        unfolding fetched_through_def by blast
      with Suc show ?thesis by simp
    qed
  qed
qed

lemma fetch_pages_stops:
  assumes "fetched_through get repo pg pages"
    and "get (issues_request repo (pg + length pages)) = Inr []"
  shows "fetch_pages get repo pg acc = Some (Inr (acc @ concat (map surviving pages)))"
  using assms
proof (induction pages arbitrary: pg acc)
  case Nil
  then show ?case by (simp add: fetch_pages_empty)
next
  case (Cons d ds)
  from Cons.prems(1) have d: "get (issues_request repo pg) = Inr d" "d \<noteq> []"
    and rest: "fetched_through get repo (Suc pg) ds"
    by (simp_all add: fetched_through_Cons)
  from Cons.prems(2) have last: "get (issues_request repo (Suc pg + length ds)) = Inr []" by simp
  have "fetch_pages get repo pg acc = fetch_pages get repo (Suc pg) (acc @ surviving d)"
    using d by (rule fetch_pages_next)
  also have "\<dots> = Some (Inr ((acc @ surviving d) @ concat (map surviving ds)))"
    using rest last by (rule Cons.IH)
  finally show ?case by simp
qed

lemma fetch_pages_returned:
  assumes "fetch_pages get repo pg acc = Some r"
  shows "loop_outcome get repo pg acc r"
proof (rule fetch_pages.raw_induct [where P = loop_outcome])
  show "fetch_pages get repo pg acc = Some r" by fact
next
  fix f get repo pg acc r
  assume IH: "\<And>get repo pg acc r. f get repo pg acc = Some r \<Longrightarrow> loop_outcome get repo pg acc r"
    and step: "(case get (issues_request repo pg) of
                  Inl e \<Rightarrow> Some (Inl e)
                | Inr data \<Rightarrow>
                    if length data = 0 then Some (Inr acc)
                    else f get repo (pg + 1) (push_items data acc)) = Some r"
  show "loop_outcome get repo pg acc r"
  proof (cases "get (issues_request repo pg)")
    case (Inl e)
    with step have "r = Inl e" by simp
    with Inl show ?thesis
      unfolding loop_outcome_def
      by (intro exI [of _ "[]"]) (simp add: fetched_through_Nil)
  next
    case (Inr data)
    show ?thesis
    proof (cases "data = []")
      case True
      with Inr step have "r = Inr acc" by simp
      with Inr True show ?thesis
        unfolding loop_outcome_def
        by (intro exI [of _ "[]"]) (simp add: fetched_through_Nil)
    next
      case False
      with Inr step have "f get repo (pg + 1) (push_items data acc) = Some r" by simp
      then have "loop_outcome get repo (pg + 1) (push_items data acc) r" by (rule IH)
      then obtain pages where
        pages: "fetched_through get repo (pg + 1) pages"
        and r: "(case r of
             Inr found \<Rightarrow> get (issues_request repo (pg + 1 + length pages)) = Inr []
                          \<and> found = push_items data acc @ concat (map surviving pages)
           | Inl e \<Rightarrow> get (issues_request repo (pg + 1 + length pages)) = Inl e)"
        unfolding loop_outcome_def by blast
      have "fetched_through get repo pg (data # pages)"
        using Inr False pages by (simp add: fetched_through_Cons)
      moreover have "(case r of
             Inr found \<Rightarrow> get (issues_request repo (pg + length (data # pages))) = Inr []
                          \<and> found = acc @ concat (map surviving (data # pages))
           | Inl e \<Rightarrow> get (issues_request repo (pg + length (data # pages))) = Inl e)"
        using r by (cases r) (simp_all add: push_items_eq)
      ultimately show ?thesis
        unfolding loop_outcome_def by blast
    qed
  qed
qed

lemma fetch_pages_diverges:
  assumes "\<forall>k. \<exists>data. get (issues_request repo k) = Inr data \<and> data \<noteq> []"
  shows "fetch_pages get repo pg acc = None"
proof (cases "fetch_pages get repo pg acc")
  case None
  then show ?thesis .
next
  case (Some r)
  then have "loop_outcome get repo pg acc r" by (rule fetch_pages_returned)
  then obtain pages where
    "(case r of
        Inr found \<Rightarrow> get (issues_request repo (pg + length pages)) = Inr []
                     \<and> found = acc @ concat (map surviving pages)
      | Inl e \<Rightarrow> get (issues_request repo (pg + length pages)) = Inl e)"
    unfolding loop_outcome_def by blast
  moreover from assms obtain data where
    "get (issues_request repo (pg + length pages)) = Inr data" "data \<noteq> []" by blast
  ultimately show ?thesis by (cases r) simp_all
qed

lemma fetchAllIssues_Inr:
  "fetchAllIssues get repo = Some (Inr found) \<longleftrightarrow> fetch_pages get repo 1 [] = Some (Inr found)"
  by (simp add: fetchAllIssues_def split: option.splits sum.splits)


lemma fetchAllIssues_success_iff:
  "fetchAllIssues get repo = Some (Inr found) \<longleftrightarrow>
     (\<exists>pages. fetched_through get repo 1 pages
        \<and> get (issues_request repo (1 + length pages)) = Inr []
        \<and> found = concat (map surviving pages))"
proof
  assume "fetchAllIssues get repo = Some (Inr found)"
  then have "fetch_pages get repo 1 [] = Some (Inr found)" by (simp add: fetchAllIssues_Inr)
  then have "loop_outcome get repo 1 [] (Inr found)" by (rule fetch_pages_returned)
  then show "\<exists>pages. fetched_through get repo 1 pages
        \<and> get (issues_request repo (1 + length pages)) = Inr []
        \<and> found = concat (map surviving pages)"
    by (simp add: loop_outcome_def)
next
  assume "\<exists>pages. fetched_through get repo 1 pages
        \<and> get (issues_request repo (1 + length pages)) = Inr []
        \<and> found = concat (map surviving pages)"
  then obtain pages where "fetched_through get repo 1 pages"
    "get (issues_request repo (1 + length pages)) = Inr []"
    "found = concat (map surviving pages)" by blast
  then have "fetch_pages get repo 1 [] = Some (Inr found)"
    using fetch_pages_stops [of get repo 1 pages "[]"] by simp
  then show "fetchAllIssues get repo = Some (Inr found)" by (simp add: fetchAllIssues_Inr)
qed

text \<open>
  Claim C6. Every request asks for the open issues, 100 per page, of the page the loop is
  at. The fetch returns a sequence of issues exactly when the pages from page 1 on are
  non-empty up to a first empty page, and the result is the concatenation, in page order,
  of what the pages before it contribute. A non-empty page made of pull requests only
  leaves the accumulator as it is and the loop goes on with the next page; where no page
  is ever empty the fetch does not return.
\<close>

theorem fetchAllIssues_pagination:
  "issues_request repo pg =
     \<lparr>url = ''https://api.github.com/repos/'' @ repo @ ''/issues'',
      state = ''open'', page = pg, per_page = 100\<rparr>
   \<and> (fetchAllIssues get repo = Some (Inr found) \<longleftrightarrow>
        (\<exists>pages. fetched_through get repo 1 pages
           \<and> get (issues_request repo (1 + length pages)) = Inr []
           \<and> found = concat (map surviving pages)))
   \<and> (\<forall>data. get (issues_request repo pg) = Inr data \<and> data \<noteq> [] \<and> surviving data = [] \<longrightarrow>
        fetch_pages get repo pg acc = fetch_pages get repo (Suc pg) acc)
   \<and> ((\<forall>k. \<exists>data. get (issues_request repo k) = Inr data \<and> data \<noteq> []) \<longrightarrow>
        fetchAllIssues get repo = None)"
proof -
  have shape: "issues_request repo pg =
     \<lparr>url = ''https://api.github.com/repos/'' @ repo @ ''/issues'',
      state = ''open'', page = pg, per_page = 100\<rparr>"
    by (simp add: issues_request_def GITHUB_API_BASE_def perPage_def)
  have only_prs: "\<forall>data. get (issues_request repo pg) = Inr data \<and> data \<noteq> [] \<and> surviving data = [] \<longrightarrow>
        fetch_pages get repo pg acc = fetch_pages get repo (Suc pg) acc"
    using fetch_pages_next [of get repo pg _ acc] by auto
  have forever: "(\<forall>k. \<exists>data. get (issues_request repo k) = Inr data \<and> data \<noteq> []) \<longrightarrow>
        fetchAllIssues get repo = None"
    by (simp add: fetchAllIssues_def fetch_pages_diverges)
  show ?thesis
    using shape only_prs forever fetchAllIssues_success_iff [of get repo found] by blast
qed

section \<open>Properties of the handlers\<close>

lemma scan_success:
  assumes "scan J get now f b = Some (Response 200 p, f')"
  shows "\<exists>repo found. body_repo b = Some repo \<and> validateRepoFormat repo
           \<and> fetchAllIssues get repo = Some (Inr found)
           \<and> storeIssues J now f repo found = Inr f'
           \<and> p = ScanResponse repo (length found) True"
  using assms
  by (auto simp: scan_def Let_def split: option.splits if_splits sum.splits)


text \<open>
  Claim C7. After a scan that answers 200, \<open>hasRepo\<close> is true for the repository and
  \<open>getIssues\<close> gives the entry whose issues are exactly the fetched sequence, in fetch
  order, with the time of the write. (The file has to be readable and the JSON text of
  the new cache has to parse back to it.)
\<close>
theorem scan_then_has_and_get:
  assumes "scan J get now f b = Some (Response 200 p, f')"
    and "body_repo b = Some repo"
    and "fetchAllIssues get repo = Some (Inr found)"
    and "loadCache J f = Inr old"
    and "read_error f = None"
    and "round_trips J (js_set repo \<lparr>issues = found, last_updated = now\<rparr> old)"
  shows "hasRepo J f' repo = Inr True
    \<and> getIssues J f' repo = Inr (Repo \<lparr>issues = found, last_updated = now\<rparr>)
    \<and> p = ScanResponse repo (length found) True"
proof -
  from scan_success [OF assms(1)] assms(2,3)
  have valid: "validateRepoFormat repo"
    and store: "storeIssues J now f repo found = Inr f'"
    and p: "p = ScanResponse repo (length found) True"
    by auto
  let ?entry = "\<lparr>issues = found, last_updated = now\<rparr>"
  have new: "loadCache J f' = Inr (js_set repo ?entry old)"
    using store assms(4,5,6) by (rule load_after_store)
  from valid have "slash \<in> set repo" by (rule validateRepoFormat_has_slash)
  then have "repo \<noteq> ''__proto__''" by (auto simp: slash_def)
  then have get: "js_get_or_null (js_set repo ?entry old) repo = Repo ?entry"
    by (simp add: js_get_after_set)
  then have "js_in repo (js_set repo ?entry old)" by (simp add: js_in_iff_get)
  with get new p show ?thesis by (simp add: hasRepo_def getIssues_def)
qed


lemma analyzeIssues_error:
  "analyzeIssues svc repo found userPrompt = (Inl e, sent) \<Longrightarrow>
     \<exists>m. message e = ''LLM API error: '' @ m"
  by (auto simp: analyzeIssues_def Let_def split: prod.splits sum.splits)

text \<open>
  Claim C10. For every state of the cache file, so in particular for every state reached
  from the missing file by \<open>storeIssues\<close>, and for every identifier, \<open>hasRepo\<close> is true
  exactly when \<open>getIssues\<close> is not \<open>null\<close>; \<open>POST /analyze\<close> therefore never answers with
  its "Failed to retrieve cached data" response.
\<close>
theorem has_agrees_with_get:
  "(\<exists>h g. hasRepo J f repo = Inr h \<and> getIssues J f repo = Inr g \<and> (h \<longleftrightarrow> g \<noteq> Null))
   \<and> fst (analyze svc J f b) \<noteq>
       Response 500
         (ErrorResponse
            (''Failed to retrieve cached data for repository '' @ apostrophe @ repo' @ apostrophe)
            None)"
proof -
  obtain cache where cache: "loadCache J f = Inr cache"
    using loadCache_returns by blast
  then have agree: "\<exists>h g. hasRepo J f repo = Inr h \<and> getIssues J f repo = Inr g \<and> (h \<longleftrightarrow> g \<noteq> Null)"
    by (simp add: hasRepo_def getIssues_def js_in_iff_get)
  have llm: "\<And>r found p e sent. analyzeIssues svc r found p = (Inl e, sent) \<Longrightarrow>
               message e \<noteq> ''Failed to retrieve cached data for repository '' @ apostrophe @ repo' @ apostrophe"
    using analyzeIssues_error by fastforce
  have "fst (analyze svc J f b) \<noteq>
       Response 500
         (ErrorResponse
            (''Failed to retrieve cached data for repository '' @ apostrophe @ repo' @ apostrophe)
            None)"
    using cache llm
    by (auto simp: analyze_def hasRepo_def getIssues_def js_in_iff_get
             split: option.splits sum.splits bool.splits lookup.splits prod.splits)
  with agree show ?thesis by simp
qed

text \<open>
  Claim C2. When the cached entry of the requested repository has no issues, no request is
  sent to the provider, and a request that passes the validation (\<open>repo\<close> and \<open>prompt\<close>
  present and non-empty) is answered with the fixed sentence.
\<close>
theorem analyze_without_issues:
  assumes "getIssues J f repo = Inr (Repo cached)" and "issues cached = []"
    and "body_repo b = Some repo"
  shows "snd (analyze svc J f b) = []
    \<and> (repo \<noteq> [] \<and> \<not> falsy (body_prompt b) \<longrightarrow>
         analyze svc J f b =
           (Response 200
              (AnalyzeResponse
                 ''No issues found in the cache for this repository. The repository may not have any open issues.''),
            []))"
proof -
  obtain cache where cache: "loadCache J f = Inr cache"
    using loadCache_returns by blast
  with assms(1) have get: "js_get_or_null cache repo = Repo cached"
    by (simp add: getIssues_def)
  then have has: "js_in repo cache" by (simp add: js_in_iff_get)
  show ?thesis
    using cache get has assms(2,3)
    by (auto simp: analyze_def hasRepo_def getIssues_def no_issues_sentence_def falsy_def
             split: option.splits)
qed

section \<open>Properties of the prompt\<close>

lemma js_join_contains: "x \<in> set xs \<Longrightarrow> sublist x (js_join sep xs)"
proof (induction sep xs rule: js_join.induct)
  case (1 sep)
  then show ?case by simp
next
  case (2 sep y)
  then show ?case by simp
next
  case (3 sep y z rest)
  show ?case
  proof (cases "x = y")
    case True
    then show ?thesis by simp
  next
    case False
    with 3 have "sublist x (js_join sep (z # rest))" by simp
    then obtain ps ss where "js_join sep (z # rest) = ps @ x @ ss"
      by (auto simp: sublist_def)
    then have "js_join sep (y # z # rest) = (y @ sep @ ps) @ x @ ss" by simp
    then show ?thesis unfolding sublist_def by blast
  qed
qed

lemma issuesText_in_fullPrompt: "sublist (issuesText found) (fullPrompt repo found userPrompt)"
proof -
  have "\<exists>ps ss. fullPrompt repo found userPrompt = ps @ issuesText found @ ss"
    unfolding fullPrompt_def by (metis append.assoc)
  then show ?thesis by (simp add: sublist_def)
qed

lemma issue_block_in_fullPrompt:
  assumes "issue \<in> set found"
  shows "sublist (issue_block issue) (fullPrompt repo found userPrompt)"
proof -
  have "sublist (issue_block issue) (issuesText found)"
    using assms by (simp add: issuesText_def js_join_contains)
  then show ?thesis
    using issuesText_in_fullPrompt sublist_order.order_trans by blast
qed

lemma shown_body_in_block:
  "sublist ([newline] @ ''Body: '' @ shown_body issue @ [newline] @ ''URL: '') (issue_block issue)"
proof -
  have "issue_block issue =
          ([newline] @ ''Issue ID: '' @ int_toString (issue_id issue) @ [newline] @ ''Title: '' @ title issue)
          @ ([newline] @ ''Body: '' @ shown_body issue @ [newline] @ ''URL: '')
          @ (html_url issue @ [newline] @ ''Created: '' @ created_at issue @ [newline] @ ''---'')"
    by (simp add: issue_block_def)
  then show ?thesis unfolding sublist_def by blast
qed

lemma analyzeIssues_sends_fullPrompt:
  "req \<in> set (snd (analyzeIssues svc repo found userPrompt)) \<Longrightarrow>
     user_text req = fullPrompt repo found userPrompt \<and> system_text req = systemPrompt
     \<and> max_tokens req = 4000"
  by (auto simp: analyzeIssues_def analyzeWithAnthropic_def analyzeWithOpenAI_def Let_def
           split: if_splits option.splits prod.splits)

text \<open>
  Claim C3. The block of every issue is part of the prompt that is sent, and its
  \<open>Body:\<close> line shows the placeholder \<open>No description\<close> for a missing or empty body, the
  body itself when it has at most 500 characters, and its first 500 characters (exactly
  500) when it is longer; it is never empty.
\<close>
theorem prompt_shows_truncated_bodies:
  assumes "issue \<in> set found"
  shows "sublist (issue_block issue) (fullPrompt repo found userPrompt)
    \<and> sublist ([newline] @ ''Body: '' @ shown_body issue @ [newline] @ ''URL: '') (issue_block issue)
    \<and> (falsy (body issue) \<longrightarrow> shown_body issue = ''No description'')
    \<and> (\<forall>b. body issue = Some b \<and> b \<noteq> [] \<and> length b \<le> 500 \<longrightarrow> shown_body issue = b)
    \<and> (\<forall>b. body issue = Some b \<and> 500 < length b \<longrightarrow>
          shown_body issue = take 500 b \<and> length (shown_body issue) = 500)
    \<and> shown_body issue \<noteq> []
    \<and> (\<forall>req \<in> set (snd (analyzeIssues svc repo found userPrompt)).
          user_text req = fullPrompt repo found userPrompt)"
proof -
  have absent: "falsy (body issue) \<longrightarrow> shown_body issue = ''No description''"
    by (simp add: shown_body_def)
  have short: "\<forall>b. body issue = Some b \<and> b \<noteq> [] \<and> length b \<le> 500 \<longrightarrow> shown_body issue = b"
    by (simp add: shown_body_def falsy_def)
  have long: "\<forall>b. body issue = Some b \<and> 500 < length b \<longrightarrow>
          shown_body issue = take 500 b \<and> length (shown_body issue) = 500"
    by (auto simp: shown_body_def falsy_def)
  have nonempty: "shown_body issue \<noteq> []"
    by (auto simp: shown_body_def falsy_def split: option.splits)
  have sent: "\<forall>req \<in> set (snd (analyzeIssues svc repo found userPrompt)).
          user_text req = fullPrompt repo found userPrompt"
    using analyzeIssues_sends_fullPrompt by blast
  show ?thesis
    using issue_block_in_fullPrompt [OF assms] shown_body_in_block absent short long nonempty sent
    by blast
qed

section \<open>JSON.stringify and JSON.parse\<close>

text \<open>
  \<open>JSON.stringify(cache, null, 2)\<close> and \<open>JSON.parse\<close> are functions of the runtime
  (ECMA-262, section 25.5). This section models them on the values a cache is made of, so
  that the round trip of \<open>saveCache\<close> and \<open>loadCache\<close> can be proved and not assumed.
\<close>

subsection \<open>Strings\<close>

text \<open>
  \<open>QuoteJSONString\<close>: the quotation mark and the backslash are escaped, the control
  characters below \<open>0x20\<close> are written \<open>\b\<close>, \<open>\f\<close>, \<open>\n\<close>, \<open>\r\<close>, \<open>\t\<close> or
  \<open>\u00XX\<close> with lower-case digits, every other character stands for itself.
\<close>

definition dquote :: char where
  "dquote = CHR 0x22"

definition backslash :: char where
  "backslash = CHR 0x5C"

definition hex_digit :: "nat \<Rightarrow> char" where
  "hex_digit d = ''0123456789abcdef'' ! d"

definition quote_char :: "char \<Rightarrow> string" where
  "quote_char c =
     (if c = dquote then [backslash, dquote]
      else if c = backslash then [backslash, backslash]
      else if c = CHR 0x08 then [backslash, CHR ''b'']
      else if c = CHR 0x0C then [backslash, CHR ''f'']
      else if c = CHR 0x0A then [backslash, CHR ''n'']
      else if c = CHR 0x0D then [backslash, CHR ''r'']
      else if c = CHR 0x09 then [backslash, CHR ''t'']
      else if (of_char c :: nat) < 32 then
        [backslash, CHR ''u'', CHR ''0'', CHR ''0'',
         hex_digit (of_char c div 16), hex_digit (of_char c mod 16)]
      else [c])"

definition quote :: "string \<Rightarrow> string" where
  "quote s = [dquote] @ concat (map quote_char s) @ [dquote]"

text \<open>
  The characters of a JSON string up to its closing quotation mark, with the rest of the
  text. Every escape of the grammar is read (\<open>\/\<close> and upper-case hexadecimal digits
  too); an unescaped control character is a \<open>SyntaxError\<close>. A \<open>\uXXXX\<close> above \<open>0xFF\<close> has no
  \<open>char\<close> to stand for it and is outside the model.
\<close>

definition hex_value :: "char \<Rightarrow> nat option" where
  "hex_value c =
     (let n = (of_char c :: nat)
      in if 48 \<le> n \<and> n < 58 then Some (n - 48)
         else if 97 \<le> n \<and> n < 103 then Some (n - 87)
         else if 65 \<le> n \<and> n < 71 then Some (n - 55)
         else None)"

definition unescape :: "char \<Rightarrow> char option" where
  "unescape e =
     (if e = dquote then Some dquote
      else if e = backslash then Some backslash
      else if e = CHR ''/'' then Some (CHR ''/'')
      else if e = CHR ''b'' then Some (CHR 0x08)
      else if e = CHR ''f'' then Some (CHR 0x0C)
      else if e = CHR ''n'' then Some (CHR 0x0A)
      else if e = CHR ''r'' then Some (CHR 0x0D)
      else if e = CHR ''t'' then Some (CHR 0x09)
      else None)"

definition unicode_escape :: "char \<Rightarrow> char \<Rightarrow> char \<Rightarrow> char \<Rightarrow> char option" where
  "unicode_escape a b c d =
     (case (hex_value a, hex_value b, hex_value c, hex_value d) of
        (Some h3, Some h2, Some h1, Some h0) \<Rightarrow>
          (let n = ((h3 * 16 + h2) * 16 + h1) * 16 + h0
           in if n < 256 then Some (char_of n) else None)
      | _ \<Rightarrow> None)"

fun parse_chars :: "string \<Rightarrow> (string \<times> string) option" where
  "parse_chars [] = None"
| "parse_chars (c # r) =
     (if c = dquote then Some ([], r)
      else if c = backslash then
        (case r of
           [] \<Rightarrow> None
         | e # r1 \<Rightarrow>
             if e = CHR ''u'' then
               (case r1 of
                  h3 # h2 # h1 # h0 # r2 \<Rightarrow>
                    (case unicode_escape h3 h2 h1 h0 of
                       None \<Rightarrow> None
                     | Some ch \<Rightarrow>
                         (case parse_chars r2 of
                            None \<Rightarrow> None
                          | Some (s, rest) \<Rightarrow> Some (ch # s, rest)))
                | _ \<Rightarrow> None)
             else
               (case unescape e of
                  None \<Rightarrow> None
                | Some ch \<Rightarrow>
                    (case parse_chars r1 of
                       None \<Rightarrow> None
                     | Some (s, rest) \<Rightarrow> Some (ch # s, rest))))
      else if (of_char c :: nat) < 32 then None
      else
        (case parse_chars r of
           None \<Rightarrow> None
         | Some (s, rest) \<Rightarrow> Some (c # s, rest)))"

lemma hex_value_hex_digit: "d < 16 \<Longrightarrow> hex_value (hex_digit d) = Some d"
proof -
  assume "d < 16"
  then consider "d = 0" | "d = 1" | "d = 2" | "d = 3" | "d = 4" | "d = 5" | "d = 6" | "d = 7"
    | "d = 8" | "d = 9" | "d = 10" | "d = 11" | "d = 12" | "d = 13" | "d = 14" | "d = 15"
    by atomize_elim arith
  then show ?thesis
    by cases (simp_all add: hex_digit_def hex_value_def)
qed

lemma unicode_escape_control:
  assumes "(of_char c :: nat) < 32"
  shows "unicode_escape (CHR ''0'') (CHR ''0'') (hex_digit (of_char c div 16))
           (hex_digit (of_char c mod 16)) = Some c"
proof -
  let ?n = "of_char c :: nat"
  have hi: "hex_value (hex_digit (?n div 16)) = Some (?n div 16)"
    using assms by (intro hex_value_hex_digit) simp
  have lo: "hex_value (hex_digit (?n mod 16)) = Some (?n mod 16)"
    by (intro hex_value_hex_digit) simp
  have zero: "hex_value (CHR ''0'') = Some 0" by (simp add: hex_value_def)
  have "((0 * 16 + 0) * 16 + ?n div 16) * 16 + ?n mod 16 = ?n" by simp
  then show ?thesis
    by (simp add: unicode_escape_def hi lo zero)
qed

lemma parse_chars_quote_char:
  assumes "parse_chars rest = Some (s, rest')"
  shows "parse_chars (quote_char c @ rest) = Some (c # s, rest')"
proof -
  consider (dq) "c = dquote" | (bs) "c = backslash" | (b) "c = CHR 0x08" | (f) "c = CHR 0x0C"
    | (n) "c = CHR 0x0A" | (r) "c = CHR 0x0D" | (t) "c = CHR 0x09"
    | (ctl) "c \<noteq> dquote" "c \<noteq> backslash" "c \<noteq> CHR 0x08" "c \<noteq> CHR 0x0C" "c \<noteq> CHR 0x0A"
        "c \<noteq> CHR 0x0D" "c \<noteq> CHR 0x09" "(of_char c :: nat) < 32"
    | (raw) "c \<noteq> dquote" "c \<noteq> backslash" "c \<noteq> CHR 0x08" "c \<noteq> CHR 0x0C" "c \<noteq> CHR 0x0A"
        "c \<noteq> CHR 0x0D" "c \<noteq> CHR 0x09" "\<not> (of_char c :: nat) < 32"
    by blast
  then show ?thesis
  proof cases
    case ctl
    then show ?thesis
      using assms unicode_escape_control [of c]
      by (simp add: quote_char_def backslash_def dquote_def)
  next
    case raw
    then show ?thesis using assms by (simp add: quote_char_def)
  qed (simp_all add: assms quote_char_def unescape_def backslash_def dquote_def)
qed

lemma parse_chars_quoted:
  "parse_chars (concat (map quote_char s) @ [dquote] @ rest) = Some (s, rest)"
  by (induction s) (simp_all add: parse_chars_quote_char)

subsection \<open>Numbers\<close>

text \<open>
  The numbers of the model are the integers, as the identifiers are: digits without a
  leading zero, after an optional minus sign. A fraction or an exponent is outside the
  model.
\<close>

definition digit_value :: "char \<Rightarrow> nat option" where
  "digit_value c =
     (let n = (of_char c :: nat) in if 48 \<le> n \<and> n < 58 then Some (n - 48) else None)"

fun parse_digits :: "nat \<Rightarrow> string \<Rightarrow> nat \<times> string" where
  "parse_digits acc [] = (acc, [])"
| "parse_digits acc (c # r) =
     (case digit_value c of
        None \<Rightarrow> (acc, c # r)
      | Some d \<Rightarrow> parse_digits (10 * acc + d) r)"

definition parse_nat :: "string \<Rightarrow> (nat \<times> string) option" where
  "parse_nat s =
     (case s of
        [] \<Rightarrow> None
      | c # r \<Rightarrow>
          (case digit_value c of
             None \<Rightarrow> None
           | Some d \<Rightarrow> if d = 0 then Some (0, r) else Some (parse_digits d r)))"

definition fraction_ahead :: "string \<Rightarrow> bool" where
  "fraction_ahead s =
     (case s of [] \<Rightarrow> False | c # r \<Rightarrow> c = CHR ''.'' \<or> c = CHR ''e'' \<or> c = CHR ''E'')"

definition parse_number :: "string \<Rightarrow> (int \<times> string) option" where
  "parse_number s =
     (case s of
        [] \<Rightarrow> None
      | c # r \<Rightarrow>
          (case (if c = CHR ''-'' then parse_nat r else parse_nat s) of
             None \<Rightarrow> None
           | Some (n, rest) \<Rightarrow>
               if fraction_ahead rest then None
               else Some (if c = CHR ''-'' then - int n else int n, rest)))"

definition number_ends :: "string \<Rightarrow> bool" where
  "number_ends s =
     (case s of [] \<Rightarrow> True | c # r \<Rightarrow> digit_value c = None \<and> \<not> fraction_ahead s)"

lemma digit_value_digit: "d < 10 \<Longrightarrow> digit_value (''0123456789'' ! d) = Some d"
proof -
  assume "d < 10"
  then consider "d = 0" | "d = 1" | "d = 2" | "d = 3" | "d = 4" | "d = 5" | "d = 6" | "d = 7"
    | "d = 8" | "d = 9"
    by atomize_elim arith
  then show ?thesis
    by cases (simp_all add: digit_value_def)
qed

lemma nat_toString_nonempty: "nat_toString n \<noteq> []"
  by (subst nat_toString.simps) simp

lemma length_nat_toString_step:
  "10 \<le> n \<Longrightarrow> length (nat_toString n) = Suc (length (nat_toString (n div 10)))"
  by (subst nat_toString.simps) simp

lemma parse_digits_nat_toString:
  "parse_digits a (nat_toString n @ rest)
     = parse_digits (a * 10 ^ length (nat_toString n) + n) rest"
proof (induction n arbitrary: a rest rule: nat_toString.induct)
  case (1 n)
  show ?case
  proof (cases "n < 10")
    case True
    then have "nat_toString n = [''0123456789'' ! n]" by (subst nat_toString.simps) simp
    with True show ?thesis by (simp add: digit_value_digit mult.commute)
  next
    case False
    then have unfold: "nat_toString n = nat_toString (n div 10) @ [''0123456789'' ! (n mod 10)]"
      by (subst nat_toString.simps) simp
    have d: "digit_value (''0123456789'' ! (n mod 10)) = Some (n mod 10)"
      by (intro digit_value_digit) simp
    have "parse_digits a (nat_toString n @ rest)
            = parse_digits a (nat_toString (n div 10) @ (''0123456789'' ! (n mod 10)) # rest)"
      by (simp add: unfold)
    also have "\<dots> = parse_digits (a * 10 ^ length (nat_toString (n div 10)) + n div 10)
                       ((''0123456789'' ! (n mod 10)) # rest)"
      using False by (intro "1.IH") simp
    also have "\<dots> = parse_digits (10 * (a * 10 ^ length (nat_toString (n div 10)) + n div 10)
                                      + n mod 10) rest"
      by (simp add: d)
    also have "10 * (a * 10 ^ length (nat_toString (n div 10)) + n div 10) + n mod 10
                 = a * 10 ^ length (nat_toString n) + n"
      using False by (simp add: length_nat_toString_step algebra_simps)
    finally show ?thesis .
  qed
qed

lemma parse_digits_end: "number_ends rest \<Longrightarrow> parse_digits a rest = (a, rest)"
  by (cases rest) (simp_all add: number_ends_def)

lemma nat_toString_leading:
  "0 < n \<Longrightarrow> \<exists>c r d. nat_toString n = c # r \<and> digit_value c = Some d \<and> d \<noteq> 0"
proof (induction n rule: nat_toString.induct)
  case (1 n)
  show ?case
  proof (cases "n < 10")
    case True
    then have "nat_toString n = [''0123456789'' ! n]" by (subst nat_toString.simps) simp
    moreover have "digit_value (''0123456789'' ! n) = Some n"
      using True by (rule digit_value_digit)
    ultimately show ?thesis using "1.prems" by simp
  next
    case False
    then have unfold: "nat_toString n = nat_toString (n div 10) @ [''0123456789'' ! (n mod 10)]"
      by (subst nat_toString.simps) simp
    from False have "0 < n div 10" by simp
    with False "1.IH" obtain c r d where
      "nat_toString (n div 10) = c # r" "digit_value c = Some d" "d \<noteq> 0"
      by blast
    with unfold show ?thesis by simp
  qed
qed

lemma parse_nat_nat_toString:
  assumes "number_ends rest"
  shows "parse_nat (nat_toString n @ rest) = Some (n, rest)"
proof (cases "n = 0")
  case True
  have "nat_toString 0 = ''0''" by (subst nat_toString.simps) simp
  with True show ?thesis by (simp add: parse_nat_def digit_value_def)
next
  case False
  then obtain c r d where lead: "nat_toString n = c # r" "digit_value c = Some d" "d \<noteq> 0"
    using nat_toString_leading [of n] by auto
  then have "parse_nat (nat_toString n @ rest) = Some (parse_digits 0 (nat_toString n @ rest))"
    by (simp add: parse_nat_def)
  also have "parse_digits 0 (nat_toString n @ rest) = parse_digits n rest"
    by (simp add: parse_digits_nat_toString)
  also have "\<dots> = (n, rest)" using assms by (rule parse_digits_end)
  finally show ?thesis .
qed

lemma nat_toString_no_minus: "nat_toString n = c # r \<Longrightarrow> c \<noteq> CHR ''-''"
proof (cases "n = 0")
  case True
  assume "nat_toString n = c # r"
  moreover have "nat_toString 0 = ''0''" by (subst nat_toString.simps) simp
  ultimately show ?thesis using True by auto
next
  case False
  assume a: "nat_toString n = c # r"
  from False obtain c' r' d where "nat_toString n = c' # r'" "digit_value c' = Some d"
    using nat_toString_leading [of n] by auto
  with a have "digit_value c = Some d" by simp
  then show ?thesis by (auto simp: digit_value_def)
qed

lemma parse_number_int_toString:
  assumes "number_ends rest"
  shows "parse_number (int_toString i @ rest) = Some (i, rest)"
proof -
  from assms have nofrac: "\<not> fraction_ahead rest"
    by (cases rest) (simp_all add: number_ends_def fraction_ahead_def)
  show ?thesis
  proof (cases "i < 0")
    case True
    then have "int_toString i @ rest = CHR ''-'' # (nat_toString (nat (- i)) @ rest)"
      by (simp add: int_toString_def)
    then show ?thesis
      using True nofrac by (simp add: parse_number_def parse_nat_nat_toString [OF assms])
  next
    case False
    obtain c r where cr: "nat_toString (nat i) = c # r"
      using nat_toString_nonempty [of "nat i"] by (cases "nat_toString (nat i)") auto
    then have c: "c \<noteq> CHR ''-''" by (rule nat_toString_no_minus)
    have "parse_nat (c # r @ rest) = Some (nat i, rest)"
      using parse_nat_nat_toString [OF assms, of "nat i"] cr by simp
    then show ?thesis
      using False nofrac c cr by (simp add: parse_number_def int_toString_def)
  qed
qed

subsection \<open>JSON.parse\<close>

text \<open>
  JSON values, and the parser for them. White space is skipped before every token. An
  object keeps its members in the order of the text; a repeated name keeps its first
  place and takes the last value, as \<open>CreateDataProperty\<close> does. The first argument
  bounds the depth of the recursion: each call reads at least one character, so one more
  than the length of the text is enough for any text.
\<close>

definition is_ws :: "char \<Rightarrow> bool" where
  "is_ws c = (c = CHR '' '' \<or> c = CHR 0x0A \<or> c = CHR 0x0D \<or> c = CHR 0x09)"

definition skip_ws :: "string \<Rightarrow> string" where
  "skip_ws s = dropWhile is_ws s"

datatype jvalue =
    JNull
  | JBool bool
  | JNumber int
  | JString string
  | JArray "jvalue list"
  | JObject "(string \<times> jvalue) list"

definition object_of :: "(string \<times> jvalue) list \<Rightarrow> (string \<times> jvalue) list" where
  "object_of members = foldl (\<lambda>obj (k, v). AList.update k v obj) [] members"

fun parse_value :: "nat \<Rightarrow> string \<Rightarrow> (jvalue \<times> string) option"
  and parse_elements :: "nat \<Rightarrow> string \<Rightarrow> (jvalue list \<times> string) option"
  and parse_members :: "nat \<Rightarrow> string \<Rightarrow> ((string \<times> jvalue) list \<times> string) option" where
  "parse_value 0 s = None"
| "parse_value (Suc n) s =
     (case skip_ws s of
        [] \<Rightarrow> None
      | c # r \<Rightarrow>
          if c = CHR ''{'' then
            (case skip_ws r of
               [] \<Rightarrow> None
             | c' # r' \<Rightarrow>
                 if c' = CHR ''}'' then Some (JObject [], r')
                 else (case parse_members n r of
                         None \<Rightarrow> None
                       | Some (members, rest) \<Rightarrow> Some (JObject (object_of members), rest)))
          else if c = CHR ''['' then
            (case skip_ws r of
               [] \<Rightarrow> None
             | c' # r' \<Rightarrow>
                 if c' = CHR '']'' then Some (JArray [], r')
                 else (case parse_elements n r of
                         None \<Rightarrow> None
                       | Some (elements, rest) \<Rightarrow> Some (JArray elements, rest)))
          else if c = dquote then
            (case parse_chars r of
               None \<Rightarrow> None
             | Some (str, rest) \<Rightarrow> Some (JString str, rest))
          else if take 4 (c # r) = ''null'' then Some (JNull, drop 4 (c # r))
          else if take 4 (c # r) = ''true'' then Some (JBool True, drop 4 (c # r))
          else if take 5 (c # r) = ''false'' then Some (JBool False, drop 5 (c # r))
          else (case parse_number (c # r) of
                  None \<Rightarrow> None
                | Some (i, rest) \<Rightarrow> Some (JNumber i, rest)))"
| "parse_elements 0 s = None"
| "parse_elements (Suc n) s =
     (case parse_value n s of
        None \<Rightarrow> None
      | Some (v, r) \<Rightarrow>
          (case skip_ws r of
             [] \<Rightarrow> None
           | c # r' \<Rightarrow>
               if c = CHR '','' then
                 (case parse_elements n r' of
                    None \<Rightarrow> None
                  | Some (vs, rest) \<Rightarrow> Some (v # vs, rest))
               else if c = CHR '']'' then Some ([v], r')
               else None))"
| "parse_members 0 s = None"
| "parse_members (Suc n) s =
     (case skip_ws s of
        [] \<Rightarrow> None
      | c # r \<Rightarrow>
          if c \<noteq> dquote then None
          else
            (case parse_chars r of
               None \<Rightarrow> None
             | Some (k, r1) \<Rightarrow>
                 (case skip_ws r1 of
                    [] \<Rightarrow> None
                  | c1 # r2 \<Rightarrow>
                      if c1 \<noteq> CHR '':'' then None
                      else
                        (case parse_value n r2 of
                           None \<Rightarrow> None
                         | Some (v, r3) \<Rightarrow>
                             (case skip_ws r3 of
                                [] \<Rightarrow> None
                              | c3 # r4 \<Rightarrow>
                                  if c3 = CHR '','' then
                                    (case parse_members n r4 of
                                       None \<Rightarrow> None
                                     | Some (members, rest) \<Rightarrow> Some ((k, v) # members, rest))
                                  else if c3 = CHR ''}'' then Some ([(k, v)], r4)
                                  else None)))))"

definition json_parse :: "string \<Rightarrow> jvalue option" where
  "json_parse text =
     (case parse_value (Suc (length text)) text of
        None \<Rightarrow> None
      | Some (v, rest) \<Rightarrow> if skip_ws rest = [] then Some v else None)"

text \<open>
  \<open>return JSON.parse(data)\<close> is typed \<open>Cache\<close> without a check. The model reads the parsed
  value as a cache through the properties the code reads (\<open>issues\<close>, \<open>last_updated\<close>, and
  the five fields of an issue, whatever else the objects hold); a value that is not a
  cache has no counterpart in the typed model.
\<close>

definition field_string :: "(string \<times> jvalue) list \<Rightarrow> string \<Rightarrow> string option" where
  "field_string obj k = (case map_of obj k of Some (JString s) \<Rightarrow> Some s | _ \<Rightarrow> None)"

definition field_number :: "(string \<times> jvalue) list \<Rightarrow> string \<Rightarrow> int option" where
  "field_number obj k = (case map_of obj k of Some (JNumber i) \<Rightarrow> Some i | _ \<Rightarrow> None)"

definition field_nullable :: "(string \<times> jvalue) list \<Rightarrow> string \<Rightarrow> string option option" where
  "field_nullable obj k =
     (case map_of obj k of
        None \<Rightarrow> Some None
      | Some JNull \<Rightarrow> Some None
      | Some (JString s) \<Rightarrow> Some (Some s)
      | _ \<Rightarrow> None)"

definition as_issue :: "jvalue \<Rightarrow> GitHubIssue option" where
  "as_issue v =
     (case v of
        JObject obj \<Rightarrow>
          Option.bind (field_number obj ''id'') (\<lambda>n.
          Option.bind (field_string obj ''title'') (\<lambda>t.
          Option.bind (field_nullable obj ''body'') (\<lambda>b.
          Option.bind (field_string obj ''html_url'') (\<lambda>u.
          Option.bind (field_string obj ''created_at'') (\<lambda>c.
            Some \<lparr>issue_id = n, title = t, body = b, html_url = u, created_at = c\<rparr>)))))
      | _ \<Rightarrow> None)"

definition as_repo :: "jvalue \<Rightarrow> CachedRepo option" where
  "as_repo v =
     (case v of
        JObject obj \<Rightarrow>
          (case map_of obj ''issues'' of
             Some (JArray elements) \<Rightarrow>
               Option.bind (those (map as_issue elements)) (\<lambda>found.
               Option.bind (field_string obj ''last_updated'') (\<lambda>t.
                 Some \<lparr>issues = found, last_updated = t\<rparr>))
           | _ \<Rightarrow> None)
      | _ \<Rightarrow> None)"

definition as_cache :: "jvalue \<Rightarrow> Cache option" where
  "as_cache v =
     (case v of
        JObject obj \<Rightarrow> those (map (\<lambda>(k, r). map_option (Pair k) (as_repo r)) obj)
      | _ \<Rightarrow> None)"

subsection \<open>JSON.stringify with an indentation of two\<close>

text \<open>
  \<open>SerializeJSONObject\<close> and \<open>SerializeJSONArray\<close> with the gap of two spaces: an empty
  object is \<open>{}\<close> and an empty array \<open>[]\<close>; otherwise every member is on a line of its
  own, indented two spaces per level, members separated by a comma, and a name is
  followed by a colon and one space. An issue is written with its fields in the order
  the fetcher creates them.
\<close>

definition indent :: "nat \<Rightarrow> string" where
  "indent d = replicate (2 * d) (CHR '' '')"

definition line :: "nat \<Rightarrow> string" where
  "line d = newline # indent d"

definition print_issue :: "nat \<Rightarrow> GitHubIssue \<Rightarrow> string" where
  "print_issue d issue =
     ''{'' @ line (Suc d) @ quote ''id'' @ '': '' @ int_toString (issue_id issue)
     @ '','' @ line (Suc d) @ quote ''title'' @ '': '' @ quote (title issue)
     @ '','' @ line (Suc d) @ quote ''body'' @ '': ''
         @ (case body issue of None \<Rightarrow> ''null'' | Some b \<Rightarrow> quote b)
     @ '','' @ line (Suc d) @ quote ''html_url'' @ '': '' @ quote (html_url issue)
     @ '','' @ line (Suc d) @ quote ''created_at'' @ '': '' @ quote (created_at issue)
     @ line d @ ''}''"

definition print_issues :: "nat \<Rightarrow> GitHubIssue list \<Rightarrow> string" where
  "print_issues d found =
     (if found = [] then ''[]''
      else ''['' @ line (Suc d)
           @ js_join ('','' @ line (Suc d)) (map (print_issue (Suc d)) found)
           @ line d @ '']'')"

definition print_repo :: "nat \<Rightarrow> CachedRepo \<Rightarrow> string" where
  "print_repo d entry =
     ''{'' @ line (Suc d) @ quote ''issues'' @ '': '' @ print_issues (Suc d) (issues entry)
     @ '','' @ line (Suc d) @ quote ''last_updated'' @ '': '' @ quote (last_updated entry)
     @ line d @ ''}''"

definition print_entry :: "string \<times> CachedRepo \<Rightarrow> string" where
  "print_entry e = quote (fst e) @ '': '' @ print_repo 1 (snd e)"

definition print_cache :: "Cache \<Rightarrow> string" where
  "print_cache cache =
     (if cache = [] then ''{}''
      else ''{'' @ line 1 @ js_join ('','' @ line 1) (map print_entry cache) @ line 0 @ ''}'')"

text \<open>
  The JSON functions of the runtime as a \<open>json\<close> parameter. \<open>JSON_parse\<close> is \<open>None\<close> for a
  text that is not JSON and for one that is not a cache.
\<close>

definition js_json :: json where
  "js_json =
     \<lparr>JSON_stringify = print_cache,
      JSON_parse = (\<lambda>text. Option.bind (json_parse text) as_cache)\<rparr>"

text \<open>The JSON values of an issue and of an entry.\<close>

definition issue_json :: "GitHubIssue \<Rightarrow> jvalue" where
  "issue_json issue =
     JObject [(''id'', JNumber (issue_id issue)), (''title'', JString (title issue)),
              (''body'', case body issue of None \<Rightarrow> JNull | Some b \<Rightarrow> JString b),
              (''html_url'', JString (html_url issue)),
              (''created_at'', JString (created_at issue))]"

definition repo_json :: "CachedRepo \<Rightarrow> jvalue" where
  "repo_json entry =
     JObject [(''issues'', JArray (map issue_json (issues entry))),
              (''last_updated'', JString (last_updated entry))]"

subsection \<open>Parsing what was printed\<close>

lemma is_ws_indent: "c \<in> set (line d) \<Longrightarrow> is_ws c"
  by (auto simp: line_def indent_def is_ws_def newline_def)

lemma skip_ws_line: "skip_ws (line d @ s) = skip_ws s"
  unfolding skip_ws_def by (rule dropWhile_append2) (rule is_ws_indent)

lemma skip_ws_space: "skip_ws (CHR '' '' # s) = skip_ws s"
  by (simp add: skip_ws_def is_ws_def)

lemma skip_ws_keep: "\<not> is_ws c \<Longrightarrow> skip_ws (c # s) = c # s"
  by (simp add: skip_ws_def)

lemma not_ws_punct:
  "\<not> is_ws dquote" "\<not> is_ws (CHR ''{'')" "\<not> is_ws (CHR ''}'')" "\<not> is_ws (CHR ''['')"
  "\<not> is_ws (CHR '']'')" "\<not> is_ws (CHR '','')" "\<not> is_ws (CHR '':'')" "\<not> is_ws (CHR ''n'')"
  by (simp_all add: is_ws_def dquote_def)

lemma parse_value_space: "parse_value n (CHR '' '' # s) = parse_value n s"
  by (cases n) (simp_all add: skip_ws_space)

lemma parse_value_line: "parse_value n (line d @ s) = parse_value n s"
  by (cases n) (simp_all add: skip_ws_line)

lemma dquote_not_bracket: "dquote \<noteq> CHR ''{''" "dquote \<noteq> CHR ''[''"
  by (simp_all add: dquote_def)

lemma parse_value_string:
  "parse_value (Suc n) (quote s @ rest) = Some (JString s, rest)"
  using parse_chars_quoted [of s rest]
  by (simp add: quote_def skip_ws_keep not_ws_punct dquote_not_bracket)

lemma parse_value_null: "parse_value (Suc n) (''null'' @ rest) = Some (JNull, rest)"
  by (simp add: skip_ws_keep not_ws_punct dquote_def)

lemma number_head:
  assumes "c = CHR ''-'' \<or> digit_value c \<noteq> None"
  shows "\<not> is_ws c \<and> c \<noteq> CHR ''{'' \<and> c \<noteq> CHR ''['' \<and> c \<noteq> dquote
         \<and> c \<noteq> CHR ''n'' \<and> c \<noteq> CHR ''t'' \<and> c \<noteq> CHR ''f''"
  using assms by (auto simp: digit_value_def is_ws_def dquote_def Let_def split: if_splits)

lemma int_toString_head:
  "\<exists>c r. int_toString i = c # r \<and> (c = CHR ''-'' \<or> digit_value c \<noteq> None)"
proof (cases "i < 0")
  case True
  then show ?thesis by (simp add: int_toString_def)
next
  case False
  show ?thesis
  proof (cases "nat i = 0")
    case True
    have "nat_toString 0 = ''0''" by (subst nat_toString.simps) simp
    with True False show ?thesis by (simp add: int_toString_def digit_value_def)
  next
    case nonzero: False
    then obtain c r d where "nat_toString (nat i) = c # r" "digit_value c = Some d"
      using nat_toString_leading [of "nat i"] by auto
    with False show ?thesis by (simp add: int_toString_def)
  qed
qed

lemma parse_value_number:
  assumes "number_ends rest"
  shows "parse_value (Suc n) (int_toString i @ rest) = Some (JNumber i, rest)"
proof -
  obtain c r where cr: "int_toString i = c # r" and c: "c = CHR ''-'' \<or> digit_value c \<noteq> None"
    using int_toString_head by blast
  note head = number_head [OF c]
  have "parse_number (c # r @ rest) = Some (i, rest)"
    using parse_number_int_toString [OF assms, of i] cr by simp
  then show ?thesis
    using head by (simp add: cr skip_ws_keep)
qed

lemma number_ends_comma: "number_ends (CHR '','' # s)"
  by (simp add: number_ends_def digit_value_def fraction_ahead_def)

lemma parse_members_more:
  assumes "parse_value n s = Some (v, CHR '','' # r)"
    and "parse_members n r = Some (members, rest)"
  shows "parse_members (Suc n) (line d @ quote k @ '': '' @ s) = Some ((k, v) # members, rest)"
proof -
  have "parse_chars (concat (map quote_char k) @ [dquote] @ CHR '':'' # CHR '' '' # s)
          = Some (k, CHR '':'' # CHR '' '' # s)"
    by (rule parse_chars_quoted)
  then show ?thesis
    using assms
    by (simp add: skip_ws_line quote_def skip_ws_keep not_ws_punct parse_value_space)
qed

lemma parse_members_last:
  assumes "parse_value n s = Some (v, line d' @ CHR ''}'' # rest)"
  shows "parse_members (Suc n) (line d @ quote k @ '': '' @ s) = Some ([(k, v)], rest)"
proof -
  have "parse_chars (concat (map quote_char k) @ [dquote] @ CHR '':'' # CHR '' '' # s)
          = Some (k, CHR '':'' # CHR '' '' # s)"
    by (rule parse_chars_quoted)
  then show ?thesis
    using assms
    by (simp add: skip_ws_line quote_def skip_ws_keep not_ws_punct parse_value_space)
qed

lemma parse_elements_more:
  assumes "parse_value n s = Some (v, CHR '','' # r)"
    and "parse_elements n r = Some (vs, rest)"
  shows "parse_elements (Suc n) s = Some (v # vs, rest)"
  using assms by (simp add: skip_ws_keep not_ws_punct)

lemma parse_elements_last:
  assumes "parse_value n s = Some (v, line d @ CHR '']'' # rest)"
  shows "parse_elements (Suc n) s = Some ([v], rest)"
  using assms by (simp add: skip_ws_line skip_ws_keep not_ws_punct)

definition body_json :: "string option \<Rightarrow> jvalue" where
  "body_json b = (case b of None \<Rightarrow> JNull | Some s \<Rightarrow> JString s)"

definition print_body :: "string option \<Rightarrow> string" where
  "print_body b = (case b of None \<Rightarrow> ''null'' | Some s \<Rightarrow> quote s)"

lemma parse_value_body:
  "parse_value (Suc n) (print_body b @ rest) = Some (body_json b, rest)"
proof (cases b)
  case None
  then show ?thesis using parse_value_null [of n rest] by (simp add: print_body_def body_json_def)
next
  case (Some s)
  then show ?thesis using parse_value_string [of n s rest] by (simp add: print_body_def body_json_def)
qed

lemma skip_ws_quote: "skip_ws (quote k @ s) = quote k @ s"
  by (simp add: quote_def skip_ws_keep not_ws_punct)

lemma quote_head: "quote k @ s = dquote # concat (map quote_char k) @ dquote # s"
  by (simp add: quote_def)

lemma parse_value_object:
  assumes "parse_members n (line d @ quote k @ s) = Some (members, rest)"
  shows "parse_value (Suc n) (CHR ''{'' # line d @ quote k @ s)
           = Some (JObject (object_of members), rest)"
proof -
  have "skip_ws (line d @ quote k @ s) = dquote # concat (map quote_char k) @ dquote # s"
    by (simp add: skip_ws_line quote_head skip_ws_keep not_ws_punct)
  moreover have "dquote \<noteq> CHR ''}''" by (simp add: dquote_def)
  ultimately show ?thesis
    using assms by (simp add: skip_ws_keep not_ws_punct)
qed

lemma parse_value_issue:
  "parse_value (Suc (Suc (Suc (Suc (Suc (Suc (Suc n))))))) (print_issue d i @ rest)
     = Some (issue_json i, rest)"
proof -
  let ?t5 = "quote (created_at i) @ line d @ CHR ''}'' # rest"
  let ?m5 = "line (Suc d) @ quote ''created_at'' @ '': '' @ ?t5"
  let ?m4 = "line (Suc d) @ quote ''html_url'' @ '': '' @ quote (html_url i) @ CHR '','' # ?m5"
  let ?m3 = "line (Suc d) @ quote ''body'' @ '': '' @ print_body (body i) @ CHR '','' # ?m4"
  let ?m2 = "line (Suc d) @ quote ''title'' @ '': '' @ quote (title i) @ CHR '','' # ?m3"
  let ?m1 = "line (Suc d) @ quote ''id'' @ '': '' @ int_toString (issue_id i) @ CHR '','' # ?m2"
  have p5: "parse_members (Suc (Suc n)) ?m5 = Some ([(''created_at'', JString (created_at i))], rest)"
    by (rule parse_members_last) (rule parse_value_string)
  have p4: "parse_members (Suc (Suc (Suc n))) ?m4
              = Some ([(''html_url'', JString (html_url i)),
                       (''created_at'', JString (created_at i))], rest)"
    by (rule parse_members_more) (rule parse_value_string, rule p5)
  have p3: "parse_members (Suc (Suc (Suc (Suc n)))) ?m3
              = Some ([(''body'', body_json (body i)), (''html_url'', JString (html_url i)),
                       (''created_at'', JString (created_at i))], rest)"
    by (rule parse_members_more) (rule parse_value_body, rule p4)
  have p2: "parse_members (Suc (Suc (Suc (Suc (Suc n))))) ?m2
              = Some ([(''title'', JString (title i)), (''body'', body_json (body i)),
                       (''html_url'', JString (html_url i)),
                       (''created_at'', JString (created_at i))], rest)"
    by (rule parse_members_more) (rule parse_value_string, rule p3)
  have p1: "parse_members (Suc (Suc (Suc (Suc (Suc (Suc n)))))) ?m1
              = Some ([(''id'', JNumber (issue_id i)), (''title'', JString (title i)),
                       (''body'', body_json (body i)), (''html_url'', JString (html_url i)),
                       (''created_at'', JString (created_at i))], rest)"
    by (rule parse_members_more) (rule parse_value_number, rule number_ends_comma, rule p2)
  have shape: "print_issue d i @ rest = CHR ''{'' # ?m1"
    by (simp add: print_issue_def print_body_def)
  have obj: "object_of [(''id'', JNumber (issue_id i)), (''title'', JString (title i)),
                       (''body'', body_json (body i)), (''html_url'', JString (html_url i)),
                       (''created_at'', JString (created_at i))]
             = [(''id'', JNumber (issue_id i)), (''title'', JString (title i)),
                       (''body'', body_json (body i)), (''html_url'', JString (html_url i)),
                       (''created_at'', JString (created_at i))]"
    by (simp add: object_of_def)
  show ?thesis
    unfolding shape
    using parse_value_object [OF p1] obj
    by (simp add: issue_json_def body_json_def)
qed

lemma parse_value_issue_fuel:
  assumes "7 \<le> n"
  shows "parse_value n (print_issue d i @ rest) = Some (issue_json i, rest)"
proof -
  from assms obtain k where "n = 7 + k" using le_Suc_ex by blast
  then have "n = Suc (Suc (Suc (Suc (Suc (Suc (Suc k))))))" by simp
  then show ?thesis by (simp only: parse_value_issue)
qed

lemma parse_elements_issues:
  assumes "found \<noteq> []" and "length found + 7 \<le> n"
  shows "parse_elements n
           (line (Suc d) @ js_join (CHR '','' # line (Suc d)) (map (print_issue (Suc d)) found)
            @ line d @ CHR '']'' # rest)
         = Some (map issue_json found, rest)"
  using assms
proof (induction found arbitrary: n rule: list_nonempty_induct)
  case (single x)
  then obtain m where n: "n = Suc m" and m: "7 \<le> m" by (cases n) auto
  have "parse_value m (line (Suc d) @ print_issue (Suc d) x @ line d @ CHR '']'' # rest)
          = Some (issue_json x, line d @ CHR '']'' # rest)"
    using m by (simp only: parse_value_line parse_value_issue_fuel)
  then have "parse_elements (Suc m) (line (Suc d) @ print_issue (Suc d) x @ line d @ CHR '']'' # rest)
          = Some ([issue_json x], rest)"
    by (rule parse_elements_last)
  then show ?case by (simp add: n)
next
  case (cons x xs)
  from cons.prems obtain m where n: "n = Suc m" and m: "length xs + 7 \<le> m" by (cases n) auto
  from cons.hyps(1) obtain y ys where xs: "xs = y # ys" by (cases xs) auto
  let ?tail = "line (Suc d) @ js_join (CHR '','' # line (Suc d)) (map (print_issue (Suc d)) xs)
                 @ line d @ CHR '']'' # rest"
  have tail: "parse_elements m ?tail = Some (map issue_json xs, rest)"
    using m by (rule cons.IH)
  have "7 \<le> m" using m by simp
  then have head: "parse_value m (line (Suc d) @ print_issue (Suc d) x @ CHR '','' # ?tail)
          = Some (issue_json x, CHR '','' # ?tail)"
    by (simp only: parse_value_line parse_value_issue_fuel)
  have "parse_elements (Suc m) (line (Suc d) @ print_issue (Suc d) x @ CHR '','' # ?tail)
          = Some (issue_json x # map issue_json xs, rest)"
    using head tail by (rule parse_elements_more)
  then show ?case by (simp add: n xs)
qed

lemma print_issue_head: "\<exists>t. print_issue d i = CHR ''{'' # t"
  by (simp add: print_issue_def)

lemma join_issues_head:
  assumes "found \<noteq> []"
  shows "\<exists>t. js_join sep (map (print_issue d) found) @ s = CHR ''{'' # t"
proof -
  from assms obtain x xs where found: "found = x # xs" by (cases found) auto
  obtain t where t: "print_issue d x = CHR ''{'' # t" using print_issue_head by blast
  show ?thesis
  proof (cases xs)
    case Nil
    with found t show ?thesis by simp
  next
    case (Cons y ys)
    with found t show ?thesis by simp
  qed
qed

lemma parse_value_issues:
  assumes "length found + 7 \<le> n"
  shows "parse_value (Suc n) (print_issues d found @ rest)
           = Some (JArray (map issue_json found), rest)"
proof (cases "found = []")
  case True
  then show ?thesis by (simp add: print_issues_def skip_ws_keep not_ws_punct)
next
  case False
  let ?inner = "line (Suc d) @ js_join (CHR '','' # line (Suc d)) (map (print_issue (Suc d)) found)
                 @ line d @ CHR '']'' # rest"
  obtain t where t: "js_join (CHR '','' # line (Suc d)) (map (print_issue (Suc d)) found)
                       @ line d @ CHR '']'' # rest = CHR ''{'' # t"
    using join_issues_head [OF False] by blast
  have "skip_ws ?inner = CHR ''{'' # t"
    by (simp only: skip_ws_line t) (simp add: skip_ws_keep not_ws_punct)
  moreover have "parse_elements n ?inner = Some (map issue_json found, rest)"
    using False assms by (rule parse_elements_issues)
  moreover have "print_issues d found @ rest = CHR ''['' # ?inner"
    using False by (simp add: print_issues_def)
  ultimately show ?thesis
    by (simp add: skip_ws_keep not_ws_punct)
qed

lemma parse_value_repo:
  assumes "length (issues r) + 7 \<le> n"
  shows "parse_value (Suc (Suc (Suc n))) (print_repo d r @ rest) = Some (repo_json r, rest)"
proof -
  let ?m2 = "line (Suc d) @ quote ''last_updated'' @ '': ''
               @ quote (last_updated r) @ line d @ CHR ''}'' # rest"
  let ?m1 = "line (Suc d) @ quote ''issues'' @ '': ''
               @ print_issues (Suc d) (issues r) @ CHR '','' # ?m2"
  from assms obtain k where n: "n = Suc k" by (cases n) auto
  have p2: "parse_members (Suc n) ?m2 = Some ([(''last_updated'', JString (last_updated r))], rest)"
    unfolding n by (rule parse_members_last) (rule parse_value_string)
  have v1: "parse_value (Suc n) (print_issues (Suc d) (issues r) @ CHR '','' # ?m2)
              = Some (JArray (map issue_json (issues r)), CHR '','' # ?m2)"
    using assms by (rule parse_value_issues)
  have p1: "parse_members (Suc (Suc n)) ?m1
              = Some ([(''issues'', JArray (map issue_json (issues r))),
                       (''last_updated'', JString (last_updated r))], rest)"
    using v1 p2 by (rule parse_members_more)
  have shape: "print_repo d r @ rest = CHR ''{'' # ?m1"
    by (simp add: print_repo_def)
  have obj: "object_of [(''issues'', JArray (map issue_json (issues r))),
                       (''last_updated'', JString (last_updated r))]
             = [(''issues'', JArray (map issue_json (issues r))),
                (''last_updated'', JString (last_updated r))]"
    by (simp add: object_of_def)
  show ?thesis
    unfolding shape
    using parse_value_object [OF p1] obj
    by (simp add: repo_json_def)
qed

text \<open>A depth that is enough for the members of a printed cache.\<close>

fun entries_fuel :: "Cache \<Rightarrow> nat" where
  "entries_fuel [] = 0"
| "entries_fuel (e # es) = length (issues (snd e)) + 11 + entries_fuel es"

definition entry_json :: "string \<times> CachedRepo \<Rightarrow> string \<times> jvalue" where
  "entry_json e = (fst e, repo_json (snd e))"

lemma parse_members_entries:
  assumes "cache \<noteq> []" and "entries_fuel cache \<le> n"
  shows "parse_members n
           (line 1 @ js_join (CHR '','' # line 1) (map print_entry cache)
            @ line 0 @ CHR ''}'' # rest)
         = Some (map entry_json cache, rest)"
  using assms
proof (induction cache arbitrary: n rule: list_nonempty_induct)
  case (single e)
  then obtain k where n: "n = Suc (Suc (Suc (Suc k)))" and k: "length (issues (snd e)) + 7 \<le> k"
    using le_Suc_ex [of "length (issues (snd e)) + 11" n]
    by (auto simp: numeral_eq_Suc)
  have "parse_value (Suc (Suc (Suc k))) (print_repo 1 (snd e) @ line 0 @ CHR ''}'' # rest)
          = Some (repo_json (snd e), line 0 @ CHR ''}'' # rest)"
    using k by (rule parse_value_repo)
  then have "parse_members (Suc (Suc (Suc (Suc k))))
               (line 1 @ quote (fst e) @ '': '' @ print_repo 1 (snd e) @ line 0 @ CHR ''}'' # rest)
             = Some ([(fst e, repo_json (snd e))], rest)"
    by (rule parse_members_last)
  then show ?case by (simp add: n print_entry_def entry_json_def)
next
  case (cons e es)
  from cons.prems obtain k where n: "n = Suc (Suc (Suc (Suc k)))"
    and k: "length (issues (snd e)) + 7 \<le> k" and rest_fuel: "entries_fuel es \<le> Suc (Suc (Suc k))"
    using le_Suc_ex [of "length (issues (snd e)) + 11 + entries_fuel es" n]
    by (auto simp: numeral_eq_Suc)
  from cons.hyps(1) obtain y ys where es: "es = y # ys" by (cases es) auto
  let ?tail = "line 1 @ js_join (CHR '','' # line 1) (map print_entry es)
                 @ line 0 @ CHR ''}'' # rest"
  have tail: "parse_members (Suc (Suc (Suc k))) ?tail = Some (map entry_json es, rest)"
    using rest_fuel by (rule cons.IH)
  have head: "parse_value (Suc (Suc (Suc k))) (print_repo 1 (snd e) @ CHR '','' # ?tail)
          = Some (repo_json (snd e), CHR '','' # ?tail)"
    using k by (rule parse_value_repo)
  have shape: "line 1 @ js_join (CHR '','' # line 1) (map print_entry (e # es))
                 @ line 0 @ CHR ''}'' # rest
               = line 1 @ quote (fst e) @ '': '' @ print_repo 1 (snd e) @ CHR '','' # ?tail"
    unfolding es by (simp add: print_entry_def [of e])
  have "parse_members (Suc (Suc (Suc (Suc k))))
               (line 1 @ quote (fst e) @ '': '' @ print_repo 1 (snd e) @ CHR '','' # ?tail)
             = Some ((fst e, repo_json (snd e)) # map entry_json es, rest)"
    using head tail by (rule parse_members_more)
  then show ?case
    unfolding n shape by (simp add: entry_json_def [of e])
qed

lemma length_js_join: "sum_list (map length parts) \<le> length (js_join sep parts)"
  by (induction sep parts rule: js_join.induct) simp_all

lemma length_quote: "2 \<le> length (quote s)"
  by (simp add: quote_def)

lemma length_line: "1 \<le> length (line d)"
  by (simp add: line_def)

lemma length_print_issue: "1 \<le> length (print_issue d i)"
  by (simp add: print_issue_def)

lemma length_print_issues: "length found \<le> length (print_issues d found)"
proof (cases "found = []")
  case True
  then show ?thesis by simp
next
  case False
  let ?parts = "map (print_issue (Suc d)) found"
  have "length found \<le> sum_list (map length ?parts)"
  proof (induction found)
    case Nil
    show ?case by simp
  next
    case (Cons x xs)
    then show ?case using length_print_issue [of "Suc d" x] by simp
  qed
  also have "\<dots> \<le> length (js_join (CHR '','' # line (Suc d)) ?parts)"
    by (rule length_js_join)
  finally show ?thesis using False by (simp add: print_issues_def)
qed

lemma length_print_repo: "length (issues r) + 11 \<le> length (print_repo d r)"
  using length_print_issues [of "issues r" "Suc d"] length_quote [of "''issues''"]
    length_quote [of "''last_updated''"] length_quote [of "last_updated r"]
  by (simp add: print_repo_def)

lemma length_print_entry: "length (issues (snd e)) + 11 \<le> length (print_entry e)"
  using length_print_repo [of "snd e" 1] by (simp add: print_entry_def)

lemma entries_fuel_le: "entries_fuel cache \<le> sum_list (map length (map print_entry cache))"
proof (induction cache)
  case Nil
  show ?case by simp
next
  case (Cons e es)
  then show ?case using length_print_entry [of e] by simp
qed

lemma entries_fuel_text: "entries_fuel cache \<le> length (print_cache cache)"
proof (cases "cache = []")
  case True
  then show ?thesis by simp
next
  case False
  have "entries_fuel cache \<le> sum_list (map length (map print_entry cache))"
    by (rule entries_fuel_le)
  also have "\<dots> \<le> length (js_join (CHR '','' # line 1) (map print_entry cache))"
    by (rule length_js_join)
  finally show ?thesis using False by (simp add: print_cache_def)
qed

lemma update_fresh: "k \<notin> fst ` set al \<Longrightarrow> AList.update k v al = al @ [(k, v)]"
  by (induction al) auto

lemma foldl_update_distinct:
  "distinct (map fst (acc @ members)) \<Longrightarrow>
     foldl (\<lambda>obj (k, v). AList.update k v obj) acc members = acc @ members"
proof (induction members arbitrary: acc)
  case Nil
  show ?case by simp
next
  case (Cons m ms)
  obtain k v where m: "m = (k, v)" by (cases m)
  from Cons.prems have fresh: "k \<notin> fst ` set acc" by (auto simp: m)
  from Cons.prems have "distinct (map fst ((acc @ [(k, v)]) @ ms))" by (simp add: m)
  then have "foldl (\<lambda>obj (k, v). AList.update k v obj) (acc @ [(k, v)]) ms = (acc @ [(k, v)]) @ ms"
    by (rule Cons.IH)
  with fresh show ?case by (simp add: m update_fresh)
qed

lemma object_of_distinct: "distinct (map fst members) \<Longrightarrow> object_of members = members"
  using foldl_update_distinct [of "[]" members] by (simp add: object_of_def)

lemma json_parse_print_cache:
  assumes "distinct (map fst cache)"
  shows "json_parse (print_cache cache) = Some (JObject (map entry_json cache))"
proof (cases "cache = []")
  case True
  then show ?thesis
    by (simp add: json_parse_def print_cache_def skip_ws_keep not_ws_punct skip_ws_def)
next
  case False
  let ?inner = "line 1 @ js_join (CHR '','' # line 1) (map print_entry cache)
                  @ line 0 @ CHR ''}'' # []"
  obtain e es where cache: "cache = e # es" using False by (cases cache) auto
  have members: "parse_members (length (print_cache cache)) ?inner = Some (map entry_json cache, [])"
    using False entries_fuel_text by (rule parse_members_entries)
  have "\<exists>t. js_join (CHR '','' # line 1) (map print_entry cache) @ line 0 @ CHR ''}'' # []
              = dquote # t"
    unfolding cache by (cases es) (simp_all add: print_entry_def quote_def)
  then obtain t where "skip_ws ?inner = dquote # t"
    by (auto simp only: skip_ws_line) (simp add: skip_ws_keep not_ws_punct)
  moreover have "dquote \<noteq> CHR ''}''" by (simp add: dquote_def)
  moreover have "print_cache cache = CHR ''{'' # ?inner"
    using False by (simp add: print_cache_def)
  moreover have "object_of (map entry_json cache) = map entry_json cache"
  proof (rule object_of_distinct)
    have "map fst (map entry_json cache) = map fst cache"
      by (induction cache) (simp_all add: entry_json_def)
    with assms show "distinct (map fst (map entry_json cache))" by (simp only:)
  qed
  ultimately show ?thesis
    using members by (simp add: json_parse_def skip_ws_keep not_ws_punct skip_ws_def)
qed

lemma as_issue_issue_json: "as_issue (issue_json i) = Some i"
  by (cases "body i")
     (simp_all add: as_issue_def issue_json_def field_number_def field_string_def
        field_nullable_def)

lemma those_as_issue: "those (map as_issue (map issue_json found)) = Some found"
  by (induction found) (simp_all add: as_issue_issue_json)

lemma as_repo_repo_json: "as_repo (repo_json r) = Some r"
  by (simp add: as_repo_def repo_json_def those_as_issue field_string_def del: map_map)

lemma as_cache_entries: "as_cache (JObject (map entry_json cache)) = Some cache"
proof -
  have "those (map (\<lambda>(k, r). map_option (Pair k) (as_repo r)) (map entry_json cache)) = Some cache"
    by (induction cache) (simp_all add: entry_json_def as_repo_repo_json)
  then show ?thesis by (simp add: as_cache_def)
qed

lemma js_json_round_trips:
  assumes "distinct (map fst cache)"
  shows "round_trips js_json cache"
  using json_parse_print_cache [OF assms]
  by (simp add: round_trips_def js_json_def as_cache_entries)

subsection \<open>Property names are distinct\<close>

lemma foldl_update_keys_distinct:
  "distinct (map fst acc) \<Longrightarrow>
     distinct (map fst (foldl (\<lambda>obj (k, v). AList.update k v obj) acc members))"
proof (induction members arbitrary: acc)
  case Nil
  then show ?case by simp
next
  case (Cons m ms)
  obtain k v where m: "m = (k, v)" by (cases m)
  from Cons.prems have "distinct (map fst (AList.update k v acc))" by (rule distinct_update)
  then show ?case unfolding m by (simp add: Cons.IH)
qed

lemma object_of_keys_distinct: "distinct (map fst (object_of members))"
  unfolding object_of_def by (rule foldl_update_keys_distinct) simp

lemma parse_value_object_keys:
  assumes "parse_value n s = Some (JObject obj, r)"
  shows "distinct (map fst obj)"
proof (cases n)
  case 0
  with assms show ?thesis by simp
next
  case (Suc m)
  with assms show ?thesis
    by (auto simp: object_of_keys_distinct
             split: list.splits if_splits option.splits prod.splits)
qed

lemma those_entries_keys:
  "those (map (\<lambda>(k, r). map_option (Pair k) (as_repo r)) obj) = Some cache \<Longrightarrow>
     map fst cache = map fst obj"
proof (induction obj arbitrary: cache)
  case Nil
  then show ?case by simp
next
  case (Cons e es)
  then show ?case by (auto split: option.splits prod.splits)
qed

lemma js_json_parse_keys:
  assumes "JSON_parse js_json text = Some cache"
  shows "distinct (map fst cache)"
proof -
  from assms obtain v where v: "json_parse text = Some v" and c: "as_cache v = Some cache"
    by (auto simp: js_json_def Option.bind_eq_Some_conv)
  from c obtain obj where obj: "v = JObject obj"
    and entries: "those (map (\<lambda>(k, r). map_option (Pair k) (as_repo r)) obj) = Some cache"
    by (cases v) (simp_all add: as_cache_def)
  from v obtain r where "parse_value (Suc (length text)) text = Some (JObject obj, r)"
    unfolding obj by (auto simp: json_parse_def split: option.splits if_splits)
  then have "distinct (map fst obj)" by (rule parse_value_object_keys)
  with those_entries_keys [OF entries] show ?thesis by simp
qed

lemma loadCache_js_json_keys:
  assumes "loadCache js_json f = Inr cache"
  shows "distinct (map fst cache)"
  using assms js_json_parse_keys
  by (auto simp: loadCache_def loadCache_try_def split: option.splits sum.splits)

lemma js_set_keys_distinct:
  "distinct (map fst obj) \<Longrightarrow> distinct (map fst (js_set k v obj))"
  by (simp add: js_set_def distinct_update)

text \<open>
  Claim C8. A cache that was saved is the cache that is loaded next: the same identifiers
  in the same order, and for each the same issue sequence and timestamp. The cache is any
  object, that is any list of entries with distinct property names; the write has to
  succeed and the file has to be readable. Every cache the service writes (the loaded
  cache with one entry set) is such an object, so it is always read back unchanged.
\<close>
theorem save_then_load_round_trip:
  assumes "saveCache js_json f cache = Inr f'" and "read_error f = None"
    and "distinct (map fst cache)"
  shows "file_data f' = Some (print_cache cache)
    \<and> loadCache js_json f' = Inr cache
    \<and> (\<exists>loaded. loadCache js_json f' = Inr loaded
          \<and> map fst loaded = map fst cache
          \<and> map (issues \<circ> snd) loaded = map (issues \<circ> snd) cache
          \<and> map (last_updated \<circ> snd) loaded = map (last_updated \<circ> snd) cache)
    \<and> hasRepo js_json f' repo = Inr (js_in repo cache)
    \<and> getIssues js_json f' repo = Inr (js_get_or_null cache repo)
    \<and> (\<forall>g old k v g'.
          loadCache js_json g = Inr old \<and> read_error g = None
          \<and> saveCache js_json g (js_set k v old) = Inr g'
          \<longrightarrow> loadCache js_json g' = Inr (js_set k v old))"
proof -
  have written: "\<forall>g old k v g'.
          loadCache js_json g = Inr old \<and> read_error g = None
          \<and> saveCache js_json g (js_set k v old) = Inr g'
          \<longrightarrow> loadCache js_json g' = Inr (js_set k v old)"
  proof (intro allI impI, elim conjE)
    fix g old k v g'
    assume old: "loadCache js_json g = Inr old" and readable: "read_error g = None"
      and saved: "saveCache js_json g (js_set k v old) = Inr g'"
    from old have "distinct (map fst old)" by (rule loadCache_js_json_keys)
    then have "distinct (map fst (js_set k v old))" by (rule js_set_keys_distinct)
    then have "round_trips js_json (js_set k v old)" by (rule js_json_round_trips)
    with saved readable show "loadCache js_json g' = Inr (js_set k v old)"
      by (rule load_after_save)
  qed
  have "round_trips js_json cache" using assms(3) by (rule js_json_round_trips)
  with assms(1,2) have "loadCache js_json f' = Inr cache" by (rule load_after_save)
  moreover from assms(1) have "file_data f' = Some (print_cache cache)"
    using saveCache_Inr [of js_json f cache f'] by (simp add: js_json_def)
  ultimately show ?thesis using written by (simp add: hasRepo_def getIssues_def)
qed

section \<open>Examples\<close>

text \<open>
  A JSON codec restricted to finitely many documents, given as a table of caches and their
  texts; any other text does not parse.
\<close>

definition table_json :: "(Cache \<times> string) list \<Rightarrow> json" where
  "table_json table =
     \<lparr>JSON_stringify = (\<lambda>cache. case map_of table cache of Some text \<Rightarrow> text | None \<Rightarrow> ''{}''),
      JSON_parse = (\<lambda>text. map_of (map (\<lambda>(cache, text). (text, cache)) table) text)\<rparr>"

text \<open>
  A host with three pages for \<open>octo/demo\<close>: an issue and a pull request, a pull request
  alone, an issue without a body; every later page is empty.
\<close>

definition demo_item :: "int \<Rightarrow> string option \<Rightarrow> string option \<Rightarrow> item" where
  "demo_item n b pr =
     \<lparr>item_id = n, item_title = ''Item '' @ int_toString n, item_body = b,
      item_html_url = ''https://github.com/octo/demo/issues/'' @ int_toString n,
      item_created_at = ''2024-01-01T00:00:00Z'', pull_request = pr\<rparr>"

definition demo_pages :: "item list list" where
  "demo_pages =
     [[demo_item 1 (Some ''Crash on start'') None, demo_item 2 (Some ''Fix it'') (Some ''pr'')],
      [demo_item 3 None (Some ''pr'')],
      [demo_item 4 None None]]"

definition demo_get :: axios where
  "demo_get req =
     (if url req = ''https://api.github.com/repos/octo/demo/issues''
         \<and> state req = ''open'' \<and> per_page req = 100 \<and> 1 \<le> page req
      then Inr (if page req \<le> length demo_pages then demo_pages ! (page req - 1) else [])
      else Inl (AxiosError (Some 404) (Some ''Not Found'') ''Request failed with status code 404''))"

definition demo_found :: "GitHubIssue list" where
  "demo_found = [to_issue (demo_item 1 (Some ''Crash on start'') None), to_issue (demo_item 4 None None)]"

lemma demo_request:
  "demo_get (issues_request ''octo/demo'' pg) =
     (if 1 \<le> pg then Inr (if pg \<le> length demo_pages then demo_pages ! (pg - 1) else [])
      else Inl (AxiosError (Some 404) (Some ''Not Found'') ''Request failed with status code 404''))"
  by (simp add: demo_get_def issues_request_def GITHUB_API_BASE_def perPage_def)

lemma demo_fetched_through: "fetched_through demo_get ''octo/demo'' 1 demo_pages"
  unfolding demo_pages_def
  by (simp add: fetched_through_Cons fetched_through_Nil demo_request demo_pages_def)

lemma demo_last_page: "demo_get (issues_request ''octo/demo'' (1 + length demo_pages)) = Inr []"
  by (simp add: demo_request)

lemma demo_surviving: "concat (map surviving demo_pages) = demo_found"
  by (simp add: demo_pages_def surviving_def demo_found_def demo_item_def)

theorem fetchAllIssues_pagination_witness:
  "fetched_through demo_get ''octo/demo'' 1 demo_pages
   \<and> demo_get (issues_request ''octo/demo'' 4) = Inr []
   \<and> surviving (demo_pages ! 1) = [] \<and> demo_pages ! 1 \<noteq> []
   \<and> fetchAllIssues demo_get ''octo/demo'' = Some (Inr demo_found)"
proof -
  have "\<exists>pages. fetched_through demo_get ''octo/demo'' 1 pages
           \<and> demo_get (issues_request ''octo/demo'' (1 + length pages)) = Inr []
           \<and> demo_found = concat (map surviving pages)"
    using demo_fetched_through demo_last_page demo_surviving by metis
  then have "fetchAllIssues demo_get ''octo/demo'' = Some (Inr demo_found)"
    using fetchAllIssues_pagination [of "''octo/demo''" 1 demo_get demo_found "[]"] by blast
  moreover have "demo_get (issues_request ''octo/demo'' 4) = Inr []"
    by (simp add: demo_request demo_pages_def)
  moreover have "surviving (demo_pages ! 1) = [] \<and> demo_pages ! 1 \<noteq> []"
    by (simp add: demo_pages_def surviving_def demo_item_def)
  ultimately show ?thesis using demo_fetched_through by simp
qed

lemma demo_fetch: "fetchAllIssues demo_get ''octo/demo'' = Some (Inr demo_found)"
proof -
  have "\<exists>pages. fetched_through demo_get ''octo/demo'' 1 pages
           \<and> demo_get (issues_request ''octo/demo'' (1 + length pages)) = Inr []
           \<and> demo_found = concat (map surviving pages)"
    using demo_fetched_through demo_last_page demo_surviving by metis
  then show ?thesis by (simp only: fetchAllIssues_success_iff)
qed

definition demo_issue :: "int \<Rightarrow> string option \<Rightarrow> GitHubIssue" where
  "demo_issue n b = to_issue (demo_item n b None)"

definition fs_missing :: fs where
  "fs_missing = \<lparr>file_data = None, read_error = None, write_error = None\<rparr>"

definition fs_with :: "string \<Rightarrow> fs" where
  "fs_with data = \<lparr>file_data = Some data, read_error = None, write_error = None\<rparr>"

definition time0 :: string where
  "time0 = ''2024-01-01T00:00:00.000Z''"

definition time1 :: string where
  "time1 = ''2024-02-02T00:00:00.000Z''"

definition cache_old :: Cache where
  "cache_old =
     [(''octo/demo'',
       \<lparr>issues = [demo_issue 7 (Some ''Old report''), demo_issue 8 None], last_updated = time0\<rparr>),
      (''octo/empty'', \<lparr>issues = [], last_updated = time0\<rparr>)]"

definition cache_new :: Cache where
  "cache_new =
     [(''octo/demo'', \<lparr>issues = demo_found, last_updated = time1\<rparr>),
      (''octo/empty'', \<lparr>issues = [], last_updated = time0\<rparr>)]"

definition cache_first :: Cache where
  "cache_first = [(''octo/demo'', \<lparr>issues = demo_found, last_updated = time1\<rparr>)]"

definition demo_json :: json where
  "demo_json = table_json [(cache_old, ''old''), (cache_new, ''new''), (cache_first, ''first'')]"

lemma demo_issue_simps:
  "demo_issue 7 (Some ''Old report'') \<noteq> demo_issue 1 (Some ''Crash on start'')"
  by (simp add: demo_issue_def to_issue_def demo_item_def)

lemma cache_distinct: "cache_old \<noteq> cache_new" "cache_new \<noteq> cache_first" "cache_old \<noteq> cache_first"
  by (simp_all add: cache_old_def cache_new_def cache_first_def time0_def time1_def)

lemma demo_stringify:
  "JSON_stringify demo_json cache_old = ''old''"
  "JSON_stringify demo_json cache_new = ''new''"
  "JSON_stringify demo_json cache_first = ''first''"
  using cache_distinct by (simp_all add: demo_json_def table_json_def)

lemma demo_parse:
  "JSON_parse demo_json ''old'' = Some cache_old"
  "JSON_parse demo_json ''new'' = Some cache_new"
  "JSON_parse demo_json ''first'' = Some cache_first"
  "JSON_parse demo_json ''{oops'' = None"
  by (simp_all add: demo_json_def table_json_def)

lemma demo_round_trips:
  "round_trips demo_json cache_old" "round_trips demo_json cache_new"
  "round_trips demo_json cache_first"
  by (simp_all add: round_trips_def demo_stringify demo_parse)

lemma demo_load:
  "loadCache demo_json fs_missing = Inr []"
  "loadCache demo_json (fs_with ''old'') = Inr cache_old"
  "loadCache demo_json (fs_with ''new'') = Inr cache_new"
  "loadCache demo_json (fs_with ''first'') = Inr cache_first"
  by (simp_all add: loadCache_def loadCache_try_def fs_missing_def fs_with_def demo_parse)

lemma demo_store_again:
  "storeIssues demo_json time1 (fs_with ''old'') ''octo/demo'' demo_found = Inr (fs_with ''new'')"
proof -
  have "js_set ''octo/demo'' \<lparr>issues = demo_found, last_updated = time1\<rparr> cache_old = cache_new"
    by (simp add: js_set_def cache_old_def cache_new_def)
  moreover have "saveCache demo_json (fs_with ''old'') cache_new = Inr (fs_with ''new'')"
    by (simp add: saveCache_def fs_with_def demo_stringify)
  ultimately show ?thesis by (simp add: storeIssues_def demo_load)
qed

lemma demo_store_first:
  "storeIssues demo_json time1 fs_missing ''octo/demo'' demo_found = Inr (fs_with ''first'')"
proof -
  have "js_set ''octo/demo'' \<lparr>issues = demo_found, last_updated = time1\<rparr> [] = cache_first"
    by (simp add: js_set_def cache_first_def)
  moreover have "saveCache demo_json fs_missing cache_first = Inr (fs_with ''first'')"
    by (simp add: saveCache_def fs_with_def fs_missing_def demo_stringify)
  ultimately show ?thesis by (simp add: storeIssues_def demo_load)
qed

theorem load_never_fails_save_surfaces_witness:
  "loadCache demo_json fs_missing = Inr []
   \<and> loadCache demo_json (fs_with ''{oops'') = Inr []
   \<and> loadCache demo_json ((fs_with ''old'')\<lparr>read_error := Some ''EACCES''\<rparr>) = Inr []
   \<and> saveCache demo_json (fs_missing\<lparr>write_error := Some ''ENOSPC''\<rparr>) cache_old
       = Inl (Error ''Failed to save cache to file'')"
  using load_never_fails_save_surfaces [of demo_json fs_missing cache_old]
    load_never_fails_save_surfaces [of demo_json "fs_with ''{oops''" cache_old]
    load_never_fails_save_surfaces [of demo_json "(fs_with ''old'')\<lparr>read_error := Some ''EACCES''\<rparr>" cache_old]
    load_never_fails_save_surfaces [of demo_json "fs_missing\<lparr>write_error := Some ''ENOSPC''\<rparr>" cache_old]
  by (simp add: fs_missing_def fs_with_def demo_parse)

theorem storeIssues_replaces_entry_witness:
  "loadCache demo_json (fs_with ''old'') = Inr cache_old
   \<and> map_of cache_old ''octo/demo''
       = Some \<lparr>issues = [demo_issue 7 (Some ''Old report''), demo_issue 8 None], last_updated = time0\<rparr>
   \<and> storeIssues demo_json time1 (fs_with ''old'') ''octo/demo'' demo_found = Inr (fs_with ''new'')
   \<and> getIssues demo_json (fs_with ''new'') ''octo/demo''
       = Inr (Repo \<lparr>issues = demo_found, last_updated = time1\<rparr>)
   \<and> getIssues demo_json (fs_with ''new'') ''octo/empty''
       = getIssues demo_json (fs_with ''old'') ''octo/empty''
   \<and> distinct (map fst cache_old)
   \<and> demo_issue 7 (Some ''Old report'') \<notin> set demo_found
   \<and> (\<exists>new. loadCache demo_json (fs_with ''new'') = Inr new
         \<and> map fst new = [''octo/demo'', ''octo/empty''])"
proof -
  have prior: "map_of cache_old ''octo/demo''
       = Some \<lparr>issues = [demo_issue 7 (Some ''Old report''), demo_issue 8 None], last_updated = time0\<rparr>"
    by (simp add: cache_old_def)
  have read: "read_error (fs_with ''old'') = None" by (simp add: fs_with_def)
  have "js_set ''octo/demo'' \<lparr>issues = demo_found, last_updated = time1\<rparr> cache_old = cache_new"
    by (simp add: js_set_def cache_old_def cache_new_def)
  then have rt: "round_trips demo_json
             (js_set ''octo/demo'' \<lparr>issues = demo_found, last_updated = time1\<rparr> cache_old)"
    using demo_round_trips(2) by (simp only:)
  have keys: "map fst cache_old = [''octo/demo'', ''octo/empty'']"
    by (simp add: cache_old_def)
  have dist: "distinct (map fst cache_old)"
    by (simp add: cache_old_def)
  have gone: "demo_issue 7 (Some ''Old report'') \<notin> set demo_found"
    by (simp add: demo_found_def demo_issue_def to_issue_def demo_item_def)
  note replaced = storeIssues_replaces_entry [OF demo_load(2) prior demo_store_again read rt]
  from replaced have get: "getIssues demo_json (fs_with ''new'') ''octo/demo''
       = Inr (Repo \<lparr>issues = demo_found, last_updated = time1\<rparr>)"
    by (rule conjunct1)
  have neq: "''octo/empty'' \<noteq> ''octo/demo''" by simp
  from replaced have "\<forall>other. other \<noteq> ''octo/demo'' \<longrightarrow>
      getIssues demo_json (fs_with ''new'') other = getIssues demo_json (fs_with ''old'') other"
    by (rule conjunct1 [OF conjunct2])
  then have "''octo/empty'' \<noteq> ''octo/demo'' \<longrightarrow>
      getIssues demo_json (fs_with ''new'') ''octo/empty''
        = getIssues demo_json (fs_with ''old'') ''octo/empty''"
    by (rule spec)
  then have other: "getIssues demo_json (fs_with ''new'') ''octo/empty''
       = getIssues demo_json (fs_with ''old'') ''octo/empty''"
    using neq by (rule mp)
  from replaced have "\<exists>new. loadCache demo_json (fs_with ''new'') = Inr new
          \<and> new = AList.update ''octo/demo'' \<lparr>issues = demo_found, last_updated = time1\<rparr> cache_old
          \<and> map fst new = map fst cache_old
          \<and> (distinct (map fst cache_old) \<longrightarrow>
               distinct (map fst new)
               \<and> filter (\<lambda>entry. fst entry = ''octo/demo'') new
                   = [(''octo/demo'', \<lparr>issues = demo_found, last_updated = time1\<rparr>)])"
    by (rule conjunct2 [OF conjunct2])
  then obtain new where loaded: "loadCache demo_json (fs_with ''new'') = Inr new"
    and same: "map fst new = map fst cache_old"
    by (elim exE conjE)
  from same keys have "map fst new = [''octo/demo'', ''octo/empty'']" by (rule trans)
  with loaded have new: "\<exists>new. loadCache demo_json (fs_with ''new'') = Inr new
         \<and> map fst new = [''octo/demo'', ''octo/empty'']"
    by (intro exI conjI)
  note before = demo_load(2) and stored = demo_store_again
  show ?thesis
    by (intro conjI) (fact before prior stored get other dist gone new)+
qed

definition demo_scan_body :: body_fields where
  "demo_scan_body = \<lparr>body_repo = Some ''octo/demo'', body_prompt = None\<rparr>"

lemma demo_valid: "validateRepoFormat ''octo/demo''"
  by (simp add: validateRepoFormat_def js_includes_def slash_def)

lemma demo_scan:
  "scan demo_json demo_get time1 fs_missing demo_scan_body
     = Some (Response 200 (ScanResponse ''octo/demo'' 2 True), fs_with ''first'')"
proof -
  have "length demo_found = 2" by (simp add: demo_found_def)
  then show ?thesis
    by (simp add: scan_def demo_scan_body_def demo_valid demo_fetch demo_store_first)
qed

theorem scan_then_has_and_get_witness:
  "scan demo_json demo_get time1 fs_missing demo_scan_body
     = Some (Response 200 (ScanResponse ''octo/demo'' 2 True), fs_with ''first'')
   \<and> fetchAllIssues demo_get ''octo/demo'' = Some (Inr demo_found)
   \<and> hasRepo demo_json (fs_with ''first'') ''octo/demo'' = Inr True
   \<and> getIssues demo_json (fs_with ''first'') ''octo/demo''
       = Inr (Repo \<lparr>issues = demo_found, last_updated = time1\<rparr>)"
proof -
  have b: "body_repo demo_scan_body = Some ''octo/demo''" by (simp add: demo_scan_body_def)
  have read: "read_error fs_missing = None" by (simp add: fs_missing_def)
  have rt: "round_trips demo_json
             (js_set ''octo/demo'' \<lparr>issues = demo_found, last_updated = time1\<rparr> [])"
    using demo_round_trips(3) by (simp add: js_set_def cache_first_def)
  show ?thesis
    using demo_scan demo_fetch
      scan_then_has_and_get [OF demo_scan b demo_fetch demo_load(1) read rt]
    by simp
qed


text \<open>A service whose provider always answers.\<close>

definition demo_llm :: LLMService where
  "demo_llm =
     \<lparr>provider = anthropic,
      anthropicClient = Some (\<lambda>req. Inr [TextBlock ''Two themes: crashes and docs.'']),
      openaiClient = None\<rparr>"

definition demo_analyze_body :: "string \<Rightarrow> body_fields" where
  "demo_analyze_body repo = \<lparr>body_repo = Some repo, body_prompt = Some ''list themes''\<rparr>"

theorem analyze_without_issues_witness:
  "getIssues demo_json (fs_with ''old'') ''octo/empty''
     = Inr (Repo \<lparr>issues = [], last_updated = time0\<rparr>)
   \<and> analyze demo_llm demo_json (fs_with ''old'') (demo_analyze_body ''octo/empty'')
       = (Response 200
            (AnalyzeResponse
               ''No issues found in the cache for this repository. The repository may not have any open issues.''),
          [])
   \<and> length (snd (analyze demo_llm demo_json (fs_with ''old'') (demo_analyze_body ''octo/demo''))) = 1"
proof -
  have get: "getIssues demo_json (fs_with ''old'') ''octo/empty''
     = Inr (Repo \<lparr>issues = [], last_updated = time0\<rparr>)"
    by (simp add: getIssues_def demo_load js_get_or_null_def cache_old_def)
  have b: "body_repo (demo_analyze_body ''octo/empty'') = Some ''octo/empty''"
    "\<not> falsy (body_prompt (demo_analyze_body ''octo/empty''))"
    by (simp_all add: demo_analyze_body_def falsy_def)
  have called: "length (snd (analyze demo_llm demo_json (fs_with ''old'') (demo_analyze_body ''octo/demo''))) = 1"
    by (simp add: analyze_def demo_analyze_body_def hasRepo_def getIssues_def demo_load
        js_in_def js_get_or_null_def cache_old_def analyzeIssues_def analyzeWithAnthropic_def
        demo_llm_def Let_def)
  show ?thesis
    using get b called
      analyze_without_issues [OF get _ b(1), of demo_llm]
    by simp
qed

definition long_body :: string where
  "long_body = replicate 501 (CHR ''x'')"

definition demo_issues :: "GitHubIssue list" where
  "demo_issues = [demo_issue 1 (Some long_body), demo_issue 2 None, demo_issue 3 (Some ''short'')]"

theorem prompt_shows_truncated_bodies_witness:
  "demo_issue 1 (Some long_body) \<in> set demo_issues
   \<and> length long_body = 501
   \<and> shown_body (demo_issue 1 (Some long_body)) = replicate 500 (CHR ''x'')
   \<and> shown_body (demo_issue 2 None) = ''No description''
   \<and> shown_body (demo_issue 3 (Some ''short'')) = ''short''
   \<and> sublist (issue_block (demo_issue 1 (Some long_body)))
        (fullPrompt ''octo/demo'' demo_issues ''list themes'')
   \<and> sublist ([newline] @ ''Body: '' @ replicate 500 (CHR ''x'') @ [newline] @ ''URL: '')
        (issue_block (demo_issue 1 (Some long_body)))"
proof -
  have mem: "demo_issue 1 (Some long_body) \<in> set demo_issues"
    "demo_issue 2 None \<in> set demo_issues" "demo_issue 3 (Some ''short'') \<in> set demo_issues"
    by (simp_all add: demo_issues_def)
  have long: "body (demo_issue 1 (Some long_body)) = Some long_body \<and> 500 < length long_body"
    by (simp add: demo_issue_def to_issue_def demo_item_def long_body_def)
  have none: "falsy (body (demo_issue 2 None))"
    by (simp add: demo_issue_def to_issue_def demo_item_def falsy_def)
  have short: "body (demo_issue 3 (Some ''short'')) = Some ''short'' \<and> ''short'' \<noteq> []
                 \<and> length ''short'' \<le> 500"
    by (simp add: demo_issue_def to_issue_def demo_item_def)
  have len: "length long_body = 501" and cut: "take 500 long_body = replicate 500 (CHR ''x'')"
    by (simp_all add: long_body_def)
  note first = prompt_shows_truncated_bodies
    [OF mem(1), of "''octo/demo''" "''list themes''" demo_llm]
  note second = prompt_shows_truncated_bodies
    [OF mem(2), of "''octo/demo''" "''list themes''" demo_llm]
  note third = prompt_shows_truncated_bodies
    [OF mem(3), of "''octo/demo''" "''list themes''" demo_llm]
  from first have inside: "sublist (issue_block (demo_issue 1 (Some long_body)))
        (fullPrompt ''octo/demo'' demo_issues ''list themes'')"
    by (rule conjunct1)
  from first have block0: "sublist ([newline] @ ''Body: '' @ shown_body (demo_issue 1 (Some long_body))
                     @ [newline] @ ''URL: '')
        (issue_block (demo_issue 1 (Some long_body)))"
    by (rule conjunct1 [OF conjunct2])
  from first have "\<forall>b. body (demo_issue 1 (Some long_body)) = Some b \<and> 500 < length b \<longrightarrow>
          shown_body (demo_issue 1 (Some long_body)) = take 500 b
          \<and> length (shown_body (demo_issue 1 (Some long_body))) = 500"
    by (rule conjunct1 [OF conjunct2 [OF conjunct2 [OF conjunct2 [OF conjunct2]]]])
  then have "body (demo_issue 1 (Some long_body)) = Some long_body \<and> 500 < length long_body \<longrightarrow>
          shown_body (demo_issue 1 (Some long_body)) = take 500 long_body
          \<and> length (shown_body (demo_issue 1 (Some long_body))) = 500"
    by (rule spec)
  then have "shown_body (demo_issue 1 (Some long_body)) = take 500 long_body
          \<and> length (shown_body (demo_issue 1 (Some long_body))) = 500"
    using long by (rule mp)
  then have "shown_body (demo_issue 1 (Some long_body)) = take 500 long_body"
    by (rule conjunct1)
  then have one: "shown_body (demo_issue 1 (Some long_body)) = replicate 500 (CHR ''x'')"
    using cut by (rule trans)
  from block0 have block: "sublist ([newline] @ ''Body: '' @ replicate 500 (CHR ''x'') @ [newline] @ ''URL: '')
        (issue_block (demo_issue 1 (Some long_body)))"
    by (simp only: one)
  from second have "falsy (body (demo_issue 2 None)) \<longrightarrow>
      shown_body (demo_issue 2 None) = ''No description''"
    by (rule conjunct1 [OF conjunct2 [OF conjunct2]])
  then have two: "shown_body (demo_issue 2 None) = ''No description''"
    using none by (rule mp)
  from third have "\<forall>b. body (demo_issue 3 (Some ''short'')) = Some b \<and> b \<noteq> [] \<and> length b \<le> 500 \<longrightarrow>
      shown_body (demo_issue 3 (Some ''short'')) = b"
    by (rule conjunct1 [OF conjunct2 [OF conjunct2 [OF conjunct2]]])
  then have "body (demo_issue 3 (Some ''short'')) = Some ''short'' \<and> ''short'' \<noteq> []
      \<and> length ''short'' \<le> 500 \<longrightarrow> shown_body (demo_issue 3 (Some ''short'')) = ''short''"
    by (rule spec)
  then have three: "shown_body (demo_issue 3 (Some ''short'')) = ''short''"
    using short by (rule mp)
  note member = mem(1)
  show ?thesis
    by (intro conjI) (fact member len one two three inside block)+
qed

theorem save_then_load_round_trip_witness:
  "saveCache js_json fs_missing cache_old
     = Inr (fs_missing\<lparr>file_data := Some (print_cache cache_old)\<rparr>)
   \<and> read_error fs_missing = None
   \<and> distinct (map fst cache_old)
   \<and> loadCache js_json (fs_missing\<lparr>file_data := Some (print_cache cache_old)\<rparr>) = Inr cache_old
   \<and> getIssues js_json (fs_missing\<lparr>file_data := Some (print_cache cache_old)\<rparr>) ''octo/empty''
       = Inr (Repo \<lparr>issues = [], last_updated = time0\<rparr>)
   \<and> length (issues (snd (hd cache_old))) = 2"
proof -
  have save: "saveCache js_json fs_missing cache_old
     = Inr (fs_missing\<lparr>file_data := Some (print_cache cache_old)\<rparr>)"
    by (simp add: saveCache_def fs_missing_def js_json_def)
  have read: "read_error fs_missing = None" by (simp add: fs_missing_def)
  have keys: "distinct (map fst cache_old)" by (simp add: cache_old_def)
  have two: "length (issues (snd (hd cache_old))) = 2" by (simp add: cache_old_def)
  have entry: "js_get_or_null cache_old ''octo/empty'' = Repo \<lparr>issues = [], last_updated = time0\<rparr>"
    by (simp add: js_get_or_null_def cache_old_def)
  note round = save_then_load_round_trip [OF save read keys, of "''octo/empty''"]
  from round have loaded:
    "loadCache js_json (fs_missing\<lparr>file_data := Some (print_cache cache_old)\<rparr>) = Inr cache_old"
    by (rule conjunct1 [OF conjunct2])
  from round have "getIssues js_json (fs_missing\<lparr>file_data := Some (print_cache cache_old)\<rparr>)
      ''octo/empty'' = Inr (js_get_or_null cache_old ''octo/empty'')"
    by (rule conjunct1 [OF conjunct2 [OF conjunct2 [OF conjunct2 [OF conjunct2]]]])
  then have got: "getIssues js_json (fs_missing\<lparr>file_data := Some (print_cache cache_old)\<rparr>)
      ''octo/empty'' = Inr (Repo \<lparr>issues = [], last_updated = time0\<rparr>)"
    by (simp only: entry)
  show ?thesis
    by (intro conjI) (fact save read keys loaded got two)+
qed

end
